theory Spec2Isabelle
  imports Main
begin

section \<open>Python string primitives used by the parser\<close>

text \<open>
  Python strings are sequences of code points; the model covers texts whose code points
  are below 256, one \<^typ>\<open>char\<close> per code point. \<open>isspace\<close> lists the code points
  below 256 that \<open>str.strip\<close>, \<open>str.split\<close> and the regular expression class \<open>\s\<close>
  treat as whitespace.
\<close>

definition isspace :: "char \<Rightarrow> bool" where
  "isspace c = (c \<in> set [CHR 0x09, CHR 0x0A, CHR 0x0B, CHR 0x0C, CHR 0x0D,
                          CHR 0x1C, CHR 0x1D, CHR 0x1E, CHR 0x1F, CHR 0x20,
                          CHR 0x85, CHR 0xA0])"

text \<open>The regular expression class \<open>\d\<close> below code point 256: the ASCII digits.\<close>

definition isdigit :: "char \<Rightarrow> bool" where
  "isdigit c = (c \<in> set ''0123456789'')"

definition rstrip :: "string \<Rightarrow> string" where
  "rstrip s = rev (dropWhile isspace (rev s))"

definition strip :: "string \<Rightarrow> string" where
  "strip s = dropWhile isspace (rstrip s)"

text \<open>\<open>s.lstrip(chars)\<close> and \<open>s.rstrip(chars)\<close> with an explicit character set.\<close>

definition lstrip_chars :: "string \<Rightarrow> string \<Rightarrow> string" where
  "lstrip_chars chars s = dropWhile (\<lambda>c. c \<in> set chars) s"

definition rstrip_chars :: "string \<Rightarrow> string \<Rightarrow> string" where
  "rstrip_chars chars s = rev (dropWhile (\<lambda>c. c \<in> set chars) (rev s))"

definition startswith :: "string \<Rightarrow> string \<Rightarrow> bool" where
  "startswith s p = (take (length p) s = p)"

text \<open>\<open>s.split()\<close>: the maximal runs of non-whitespace characters, in order.\<close>

fun split_from :: "string \<Rightarrow> string \<Rightarrow> string list" where
  "split_from cur [] = (if cur = [] then [] else [cur])"
| "split_from cur (c # cs) =
     (if isspace c then (if cur = [] then split_from [] cs else cur # split_from [] cs)
      else split_from (cur @ [c]) cs)"

definition split :: "string \<Rightarrow> string list" where
  "split s = split_from [] s"

text \<open>
  \<open>text.splitlines()\<close>: a line ends at \<open>\n\<close>, \<open>\r\<close>, \<open>\r\n\<close>, \<open>\v\<close>, \<open>\f\<close>,
  \<open>\x1c\<close>, \<open>\x1d\<close>, \<open>\x1e\<close> or \<open>\x85\<close>; the terminators are dropped and a final
  terminator opens no empty last line.
\<close>

definition islinebreak :: "char \<Rightarrow> bool" where
  "islinebreak c = (c \<in> set [CHR 0x0A, CHR 0x0B, CHR 0x0C, CHR 0x0D,
                              CHR 0x1C, CHR 0x1D, CHR 0x1E, CHR 0x85])"

fun splitlines_from :: "string \<Rightarrow> string \<Rightarrow> string list" where
  "splitlines_from cur [] = (if cur = [] then [] else [cur])"
| "splitlines_from cur [c] = (if islinebreak c then [cur] else [cur @ [c]])"
| "splitlines_from cur (c # d # cs) =
     (if c = CHR 0x0D \<and> d = CHR 0x0A then cur # splitlines_from [] cs
      else if islinebreak c then cur # splitlines_from [] (d # cs)
      else splitlines_from (cur @ [c]) (d # cs))"

definition splitlines :: "string \<Rightarrow> string list" where
  "splitlines s = splitlines_from [] s"

text \<open>\<open>"\n".join(lines)\<close>\<close>

fun join_nl :: "string list \<Rightarrow> string" where
  "join_nl [] = []"
| "join_nl [l] = l"
| "join_nl (l # m # ls) = l @ [CHR 0x0A] @ join_nl (m # ls)"

subsection \<open>The three substitutions of \<open>flush_variation\<close>\<close>

text \<open>
  \<open>re.sub(r"\{\s*.*?\s*\}", "", ln)\<close>. A match starts at a \<open>{\<close> and ends at the first
  \<open>}\<close> after it; it exists when the text between them, without its leading and trailing
  whitespace, has no newline (the dot does not match \<open>\n\<close>). Scanning resumes after a
  match, and at the next character where there is none.
\<close>

function sub_braces :: "string \<Rightarrow> string" where
  "sub_braces [] = []"
| "sub_braces (c # cs) =
     (if c = CHR ''{'' \<and> CHR ''}'' \<in> set cs
         \<and> CHR 0x0A \<notin> set (strip (takeWhile (\<lambda>d. d \<noteq> CHR ''}'') cs))
      then sub_braces (tl (dropWhile (\<lambda>d. d \<noteq> CHR ''}'') cs))
      else c # sub_braces cs)"
  by pat_completeness auto
termination
proof (relation "measure length")
  fix c :: char and cs :: string
  have "length (tl (dropWhile (\<lambda>d. d \<noteq> CHR ''}'') cs)) \<le> length cs"
    using length_dropWhile_le [of "\<lambda>d. d \<noteq> CHR ''}''" cs] by simp
  then show "(tl (dropWhile (\<lambda>d. d \<noteq> CHR ''}'') cs), c # cs) \<in> measure length"
    by simp
qed simp_all

text \<open>
  \<open>re.sub(r"\d+\.(\.\.)?", "", ln)\<close>: a maximal run of digits followed by a dot, and by
  two more dots when they are there.
\<close>

function sub_move_numbers :: "string \<Rightarrow> string" where
  "sub_move_numbers [] = []"
| "sub_move_numbers (c # cs) =
     (if isdigit c \<and> take 1 (dropWhile isdigit cs) = ''.''
      then sub_move_numbers
             (if take 2 (drop 1 (dropWhile isdigit cs)) = ''..''
              then drop 3 (dropWhile isdigit cs) else drop 1 (dropWhile isdigit cs))
      else c # sub_move_numbers cs)"
  by pat_completeness auto
termination
proof (relation "measure length")
  fix c :: char and cs :: string
  have le: "length (dropWhile isdigit cs) \<le> length cs"
    by (rule length_dropWhile_le)
  then show "(if take 2 (drop 1 (dropWhile isdigit cs)) = ''..''
               then drop 3 (dropWhile isdigit cs) else drop 1 (dropWhile isdigit cs), c # cs)
             \<in> measure length"
    by auto
qed simp_all

text \<open>
  \<open>re.sub(r"[!?+#]+$", "", tok)\<close>: the trailing run of annotation glyphs is removed;
  \<open>$\<close> also matches before a newline that ends the string.
\<close>

definition isglyph :: "char \<Rightarrow> bool" where
  "isglyph c = (c \<in> set ''!?+#'')"

definition tok_clean :: "string \<Rightarrow> string" where
  "tok_clean tok =
     (if tok \<noteq> [] \<and> last tok = CHR 0x0A
      then rev (dropWhile isglyph (rev (butlast tok))) @ [CHR 0x0A]
      else rev (dropWhile isglyph (rev tok)))"

section \<open>The rules engine\<close>

text \<open>
  The chess rules come from the \<open>python-chess\<close> library, which is not part of the
  repository. The program is modelled over any engine: a record of the library calls the
  program makes, with \<open>'b\<close> the boards, \<open>'m\<close> the moves and \<open>'p\<close> the pieces.
  \<open>parse_san\<close> returns \<open>Inl\<close> of the exception text where the library raises; the other
  calls are taken as total on the values the program passes them.
\<close>

record ('b, 'm, 'p) engine =
  Board :: "'b"
  Board_fen :: "string \<Rightarrow> 'b"
  parse_san :: "'b \<Rightarrow> string \<Rightarrow> string + 'm"
  push :: "'b \<Rightarrow> 'm \<Rightarrow> 'b"
  fen :: "'b \<Rightarrow> string"
  uci :: "'m \<Rightarrow> string"
  from_uci :: "string \<Rightarrow> 'm"
  from_square :: "'m \<Rightarrow> int"
  to_square :: "'m \<Rightarrow> int"
  piece_at :: "'b \<Rightarrow> int \<Rightarrow> 'p option"
  is_capture :: "'b \<Rightarrow> 'm \<Rightarrow> bool"
  is_en_passant :: "'m \<Rightarrow> bool"
  is_check :: "'b \<Rightarrow> bool"
  king_to_move :: "'b \<Rightarrow> int option"
  color :: "'p \<Rightarrow> bool"

section \<open>Parsing assets\<close>

text \<open>The dictionary built for one variation.\<close>

record variation =
  name :: string
  moves_san :: "string list"
  moves_uci :: "string list"
  states_fen :: "string list"

text \<open>
  \<open>openings\<close> is a Python dictionary from opening names to lists of variations; it keeps
  the order in which keys were inserted, so it is an association list with one entry a key.
  \<open>openings.setdefault(k, []).append(v)\<close>:
\<close>

fun setdefault_append :: "('k \<times> 'v list) list \<Rightarrow> 'k \<Rightarrow> 'v \<Rightarrow> ('k \<times> 'v list) list" where
  "setdefault_append [] k v = [(k, [v])]"
| "setdefault_append ((k', vs) # kvs) k v =
     (if k' = k then (k', vs @ [v]) # kvs else (k', vs) # setdefault_append kvs k v)"

text \<open>
  The state of the scan of one file: the dictionary, the three \<open>nonlocal\<close> variables of
  \<open>flush_variation\<close>, and the lines printed so far.
\<close>

record pstate =
  openings :: "(string \<times> variation list) list"
  cur_opening :: "string option"
  cur_variation :: "string option"
  cur_moves_lines :: "string list"
  printed :: "string list"

text \<open>The tokens of one line of move text, as the first loop of \<open>flush_variation\<close> takes them.\<close>

definition line_tokens :: "string \<Rightarrow> string list" where
  "line_tokens ln =
     (let ln1 = sub_braces ln; ln2 = sub_move_numbers ln1; ln3 = strip ln2
      in if ln3 = [] then [] else split ln3)"

definition tokens_of :: "string list \<Rightarrow> string list" where
  "tokens_of lns =
     filter (\<lambda>t. strip t \<noteq> [] \<and> strip t \<noteq> ''...'') (concat (map line_tokens lns))"

definition warning :: "string \<Rightarrow> string \<Rightarrow> string \<Rightarrow> string \<Rightarrow> string" where
  "warning tok opening var e =
     ''Warning: could not parse move '' @ [CHR 0x27] @ tok @ [CHR 0x27] @ '' in ''
       @ opening @ '' -> '' @ var @ '': '' @ e"

text \<open>
  The loop over the tokens. Its state is \<open>(board, ucis, fens, valid_sans)\<close>; it returns the
  final state and what it printed. The \<open>break\<close> in the handler ends the loop.
\<close>

fun token_loop :: "('b, 'm, 'p) engine \<Rightarrow> string \<Rightarrow> string \<Rightarrow> string list
    \<Rightarrow> 'b \<times> string list \<times> string list \<times> string list
    \<Rightarrow> ('b \<times> string list \<times> string list \<times> string list) \<times> string list" where
  "token_loop E opening var [] acc = (acc, [])"
| "token_loop E opening var (tok # toks) (board, ucis, fens, valid_sans) =
     (case parse_san E board (tok_clean tok) of
        Inr move \<Rightarrow>
          token_loop E opening var toks
            (push E board move, ucis @ [uci E move],
             fens @ [fen E (push E board move)], valid_sans @ [tok])
      | Inl e \<Rightarrow> ((board, ucis, fens, valid_sans), [warning tok opening var e]))"

definition flush_variation :: "('b, 'm, 'p) engine \<Rightarrow> pstate \<Rightarrow> pstate" where
  "flush_variation E st =
     (case cur_opening st of
        None \<Rightarrow> st
      | Some opening \<Rightarrow>
         (case cur_variation st of
            None \<Rightarrow> st
          | Some var \<Rightarrow>
              if strip (join_nl (cur_moves_lines st)) = [] then st
              else
                (case token_loop E opening var (tokens_of (cur_moves_lines st))
                        (Board E, [], [fen E (Board E)], []) of
                   ((board, ucis, fens, valid_sans), out) \<Rightarrow>
                     st\<lparr>openings :=
                          setdefault_append (openings st) opening
                            \<lparr>name = var, moves_san = valid_sans, moves_uci = ucis,
                             states_fen = fens\<rparr>,
                        cur_moves_lines := [],
                        printed := printed st @ out\<rparr>)))"

text \<open>One iteration of the loop over the lines of a file.\<close>

definition header_name :: "string \<Rightarrow> string" where
  "header_name line_stripped = rstrip_chars '':'' (strip (lstrip_chars ''* '' line_stripped))"

definition process_line :: "('b, 'm, 'p) engine \<Rightarrow> string \<Rightarrow> pstate \<Rightarrow> pstate" where
  "process_line E line st =
     (let line_stripped = strip line in
      if startswith line_stripped ''**'' then
        (flush_variation E st)\<lparr>cur_variation := None, cur_moves_lines := [],
                                cur_opening := Some (header_name line_stripped)\<rparr>
      else if startswith line_stripped ''*'' then
        (flush_variation E st)\<lparr>cur_variation := Some (header_name line_stripped),
                                cur_moves_lines := []\<rparr>
      else if startswith line_stripped ''-'' \<and> set line_stripped \<subseteq> set ''- '' then
        (flush_variation E st)\<lparr>cur_variation := None, cur_moves_lines := []\<rparr>
      else if cur_variation st \<noteq> None then
        (if strip line \<noteq> [] then st\<lparr>cur_moves_lines := cur_moves_lines st @ [rstrip line]\<rparr>
         else st)
      else st)"

fun process_lines :: "('b, 'm, 'p) engine \<Rightarrow> string list \<Rightarrow> pstate \<Rightarrow> pstate" where
  "process_lines E [] st = st"
| "process_lines E (line # lines) st = process_lines E lines (process_line E line st)"

text \<open>
  The body of the loop over the files: the scan variables start afresh, the dictionary
  and the output are carried over.
\<close>

definition parse_file :: "('b, 'm, 'p) engine \<Rightarrow> string \<Rightarrow> pstate \<Rightarrow> pstate" where
  "parse_file E text st =
     flush_variation E
       (process_lines E (splitlines text)
          (st\<lparr>cur_opening := None, cur_variation := None, cur_moves_lines := []\<rparr>))"

fun parse_files :: "('b, 'm, 'p) engine \<Rightarrow> string list \<Rightarrow> pstate \<Rightarrow> pstate" where
  "parse_files E [] st = st"
| "parse_files E (text # texts) st = parse_files E texts (parse_file E text st)"

definition pstate0 :: pstate where
  "pstate0 = \<lparr>openings = [], cur_opening = None, cur_variation = None,
              cur_moves_lines = [], printed = []\<rparr>"

text \<open>
  \<open>parse_assets\<close>, given the texts of the files that \<open>glob\<close> found, in its order. The
  function returns the dictionary; \<open>parse_assets_printed\<close> is what it printed.
\<close>

definition parse_assets :: "('b, 'm, 'p) engine \<Rightarrow> string list \<Rightarrow> (string \<times> variation list) list" where
  "parse_assets E files = (if files = [] then [] else openings (parse_files E files pstate0))"

definition parse_assets_printed :: "('b, 'm, 'p) engine \<Rightarrow> string list \<Rightarrow> string list" where
  "parse_assets_printed E files = (if files = [] then [] else printed (parse_files E files pstate0))"

text \<open>All the variations of a dictionary, opening by opening.\<close>

definition variations_of :: "(string \<times> variation list) list \<Rightarrow> variation list" where
  "variations_of d = concat (map snd d)"

section \<open>A small engine for concrete runs\<close>

text \<open>
  A fragment of the rules, enough to run the program on short opening lines: a board is
  the side to move and the pieces on their squares (\<open>a1 = 0\<close>, \<open>h8 = 63\<close>), a piece is
  its letter (upper case for White), a move is its origin and destination. The notation
  it resolves is a fixed table of moves, each legal when its piece stands on the origin
  and the destination is free (or, for a capture, holds a piece of the other side).
  Every other token is refused, as \<open>python-chess\<close> refuses \<open>Qh9\<close>.
\<close>

type_synonym toy_board = "bool \<times> (int \<times> char) list"
type_synonym toy_move = "int \<times> int"

definition toy_start :: toy_board where
  "toy_start = (True,
     zip (map int [0 ..< 8]) ''RNBQKBNR'' @ zip (map int [8 ..< 16]) ''PPPPPPPP''
     @ zip (map int [48 ..< 56]) ''pppppppp'' @ zip (map int [56 ..< 64]) ''rnbqkbnr'')"

definition toy_white :: "char \<Rightarrow> bool" where
  "toy_white p = (p \<in> set ''PNBRQK'')"

text \<open>Token, side to move, piece, origin, destination, capture.\<close>

definition toy_table :: "(string \<times> bool \<times> char \<times> int \<times> int \<times> bool) list" where
  "toy_table =
     [(''e4'', True, CHR ''P'', 12, 28, False), (''d4'', True, CHR ''P'', 11, 27, False),
      (''Nc3'', True, CHR ''N'', 1, 18, False), (''Nf3'', True, CHR ''N'', 6, 21, False),
      (''c6'', False, CHR ''p'', 50, 42, False), (''d5'', False, CHR ''p'', 51, 35, False),
      (''e5'', False, CHR ''p'', 52, 36, False), (''dxe4'', False, CHR ''p'', 35, 28, True),
      (''exd5'', True, CHR ''P'', 28, 35, True), (''Nxe4'', True, CHR ''N'', 18, 28, True)]"

definition toy_parse_san :: "toy_board \<Rightarrow> string \<Rightarrow> string + toy_move" where
  "toy_parse_san b san =
     (case map_of toy_table san of
        None \<Rightarrow> Inl (''invalid san: '' @ san)
      | Some (white, p, orig, dest, capture) \<Rightarrow>
          if fst b = white \<and> map_of (snd b) orig = Some p
             \<and> (case map_of (snd b) dest of
                   None \<Rightarrow> \<not> capture
                 | Some q \<Rightarrow> capture \<and> toy_white q \<noteq> white)
          then Inr (orig, dest)
          else Inl (''illegal san: '' @ san))"

definition toy_push :: "toy_board \<Rightarrow> toy_move \<Rightarrow> toy_board" where
  "toy_push b m =
     (case map_of (snd b) (fst m) of
        None \<Rightarrow> (\<not> fst b, snd b)
      | Some p \<Rightarrow>
          (\<not> fst b, (snd m, p) # filter (\<lambda>sp. fst sp \<noteq> fst m \<and> fst sp \<noteq> snd m) (snd b)))"

definition toy_fen :: "toy_board \<Rightarrow> string" where
  "toy_fen b =
     map (\<lambda>sq. case map_of (snd b) sq of None \<Rightarrow> CHR ''.'' | Some p \<Rightarrow> p)
       (map int [0 ..< 64])
     @ (if fst b then ''w'' else ''b'')"

definition toy_Board_fen :: "string \<Rightarrow> toy_board" where
  "toy_Board_fen s =
     (drop 64 s = ''w'', filter (\<lambda>sp. snd sp \<noteq> CHR ''.'') (zip (map int [0 ..< 64]) (take 64 s)))"

definition toy_square_name :: "int \<Rightarrow> string" where
  "toy_square_name sq = [''abcdefgh'' ! nat (sq mod 8), ''12345678'' ! nat (sq div 8)]"

fun toy_index :: "string \<Rightarrow> char \<Rightarrow> int" where
  "toy_index [] c = 0"
| "toy_index (d # ds) c = (if d = c then 0 else 1 + toy_index ds c)"

definition toy_uci :: "toy_move \<Rightarrow> string" where
  "toy_uci m = toy_square_name (fst m) @ toy_square_name (snd m)"

definition toy_from_uci :: "string \<Rightarrow> toy_move" where
  "toy_from_uci s =
     (toy_index ''abcdefgh'' (s ! 0) + 8 * toy_index ''12345678'' (s ! 1),
      toy_index ''abcdefgh'' (s ! 2) + 8 * toy_index ''12345678'' (s ! 3))"

definition toy :: "(toy_board, toy_move, char) engine" where
  "toy = \<lparr>Board = toy_start, Board_fen = toy_Board_fen, parse_san = toy_parse_san,
          push = toy_push, fen = toy_fen, uci = toy_uci, from_uci = toy_from_uci,
          from_square = fst, to_square = snd,
          piece_at = (\<lambda>b sq. map_of (snd b) sq),
          is_capture = (\<lambda>b m. map_of (snd b) (snd m) \<noteq> None),
          is_en_passant = (\<lambda>m. False), is_check = (\<lambda>b. False),
          king_to_move = (\<lambda>b. None), color = toy_white\<rparr>"

section \<open>The lines and the blocks of a file\<close>

text \<open>
  The conditions of the loop over the lines, as tests on a line: the first branch is
  taken by an opening header, the second by a variation header, and the last one (the
  \<open>else\<close>) by every line that is neither a header nor a separator.
\<close>

definition opening_header :: "string \<Rightarrow> bool" where
  "opening_header line = startswith (strip line) ''**''"

definition variation_header :: "string \<Rightarrow> bool" where
  "variation_header line = (\<not> startswith (strip line) ''**'' \<and> startswith (strip line) ''*'')"

definition move_line :: "string \<Rightarrow> bool" where
  "move_line line =
     (\<not> startswith (strip line) ''*''
      \<and> \<not> (startswith (strip line) ''-'' \<and> set (strip line) \<subseteq> set ''- ''))"

text \<open>
  What the \<open>else\<close> branch collects from the lines of a variation: each line that is not
  blank, without its trailing whitespace.
\<close>

definition move_lines :: "string list \<Rightarrow> string list" where
  "move_lines body = map rstrip (filter (\<lambda>l. strip l \<noteq> []) body)"

text \<open>
  A variation block in the lines \<open>pre @ ohdr # mid @ vhdr # body @ rest\<close> of a file:
  \<open>ohdr\<close> is an opening header and the last one before the variation header \<open>vhdr\<close>,
  \<open>body\<close> are the lines of the variation, and they end at the end of the file or at a
  header or separator, the first line of \<open>rest\<close>.
\<close>

definition block :: "string \<Rightarrow> string list \<Rightarrow> string \<Rightarrow> string list \<Rightarrow> string list \<Rightarrow> bool" where
  "block ohdr mid vhdr body rest =
     (opening_header ohdr \<and> list_all (\<lambda>l. \<not> opening_header l) mid
      \<and> variation_header vhdr \<and> list_all move_line body
      \<and> list_all (\<lambda>l. \<not> move_line l) (take 1 rest))"

text \<open>
  \<open>variation_obj\<close> as \<open>flush_variation\<close> builds it from the opening name, the variation
  name and the collected lines, and what the token loop prints on the way.
\<close>

definition variation_obj :: "('b, 'm, 'p) engine \<Rightarrow> string \<Rightarrow> string \<Rightarrow> string list \<Rightarrow> variation" where
  "variation_obj E opening var lns =
     (case token_loop E opening var (tokens_of lns) (Board E, [], [fen E (Board E)], []) of
        ((board, ucis, fens, valid_sans), out) \<Rightarrow>
          \<lparr>name = var, moves_san = valid_sans, moves_uci = ucis, states_fen = fens\<rparr>)"

definition flush_printed :: "('b, 'm, 'p) engine \<Rightarrow> string \<Rightarrow> string \<Rightarrow> string list \<Rightarrow> string list" where
  "flush_printed E opening var lns =
     snd (token_loop E opening var (tokens_of lns) (Board E, [], [fen E (Board E)], []))"

text \<open>
  The pairs of an opening name and one of its variations, in the order of the dictionary,
  and \<open>d.get(k, [])\<close>.
\<close>

definition entries :: "('k \<times> 'v list) list \<Rightarrow> ('k \<times> 'v) list" where
  "entries d = concat (map (\<lambda>kv. map (Pair (fst kv)) (snd kv)) d)"

definition entry :: "('k \<times> 'v list) list \<Rightarrow> 'k \<Rightarrow> 'v list" where
  "entry d k = (case map_of d k of None \<Rightarrow> [] | Some vs \<Rightarrow> vs)"

text \<open>
  What the scan variables say about the lines \<open>seen\<close> so far: the current opening is the
  name of the last opening header, and an open variation has its header after that one,
  followed by the lines from which its move text was collected.
\<close>

definition scan_inv :: "string list \<Rightarrow> pstate \<Rightarrow> bool" where
  "scan_inv seen st =
     ((\<forall>opn. cur_opening st = Some opn \<longrightarrow>
         (\<exists>pre ohdr mid. seen = pre @ ohdr # mid \<and> opening_header ohdr
            \<and> list_all (\<lambda>l. \<not> opening_header l) mid \<and> opn = header_name (strip ohdr)))
      \<and> (\<forall>opn vn. cur_opening st = Some opn \<and> cur_variation st = Some vn \<longrightarrow>
         (\<exists>pre ohdr mid vhdr body. seen = pre @ ohdr # mid @ vhdr # body \<and> opening_header ohdr
            \<and> list_all (\<lambda>l. \<not> opening_header l) mid \<and> variation_header vhdr
            \<and> list_all move_line body \<and> opn = header_name (strip ohdr)
            \<and> vn = header_name (strip vhdr) \<and> cur_moves_lines st = move_lines body)))"

section \<open>Sample files\<close>


text \<open>A file whose only variation fails at its third token.\<close>

definition file_third_token_refused :: string where
  "file_third_token_refused =
     ''** A:'' @ [CHR 0x0A] @
     ''* V:'' @ [CHR 0x0A] @
     ''1. e4 e5 2. Qh9 d4''"


text \<open>Two files of one load: the first has two headers of the opening \<open>A\<close>, with another
  opening in between, and the second has a header of \<open>A\<close> again.\<close>

definition file_repeated_header :: string where
  "file_repeated_header =
     ''** A:'' @ [CHR 0x0A] @
     ''* V:'' @ [CHR 0x0A] @
     ''e4'' @ [CHR 0x0A] @
     ''** B:'' @ [CHR 0x0A] @
     ''* X:'' @ [CHR 0x0A] @
     ''d4'' @ [CHR 0x0A] @
     ''** A:'' @ [CHR 0x0A] @
     ''* W:'' @ [CHR 0x0A] @
     ''d4''"

definition file_header_again :: string where
  "file_header_again =
     ''** A:'' @ [CHR 0x0A] @
     ''* Z:'' @ [CHR 0x0A] @
     ''Nf3''"

section \<open>Properties of the parser\<close>

subsection \<open>Auxiliary facts\<close>

lemma set_setdefault_append:
  "set (variations_of (setdefault_append d k v)) = insert v (set (variations_of d))"
  by (induction d k v rule: setdefault_append.induct) (auto simp: variations_of_def)

lemma keys_setdefault_append:
  "map fst (setdefault_append d k v) = (if k \<in> set (map fst d) then map fst d else map fst d @ [k])"
  by (induction d k v rule: setdefault_append.induct) auto

lemma map_of_setdefault_append:
  "map_of (setdefault_append d k v) k' =
     (if k' = k then Some ((case map_of d k of None \<Rightarrow> [] | Some vs \<Rightarrow> vs) @ [v]) else map_of d k')"
  by (induction d k v rule: setdefault_append.induct) auto

lemma token_loop_append:
  "token_loop E opening var (pre @ rest) acc =
     (case token_loop E opening var pre acc of
        (acc', []) \<Rightarrow> token_loop E opening var rest acc'
      | (acc', w # ws) \<Rightarrow> (acc', w # ws))"
proof (induction pre arbitrary: acc)
  case Nil
  then show ?case by simp
next
  case (Cons tok pre)
  obtain board ucis fens sans where acc: "acc = (board, ucis, fens, sans)"
    by (cases acc) auto
  show ?case
    by (cases "parse_san E board (tok_clean tok)") (simp_all add: acc Cons.IH)
qed

lemma token_loop_shape:
  "token_loop E opening var toks (board, ucis, fens, sans) = ((b, us, fs, ss), out) \<Longrightarrow>
   \<exists>n \<le> length toks.
      ss = sans @ take n toks \<and> length us = length ucis + n \<and> length fs = length fens + n
      \<and> token_loop E opening var (take n toks) (board, ucis, fens, sans) = ((b, us, fs, ss), [])
      \<and> (if n < length toks
          then \<exists>e. parse_san E b (tok_clean (toks ! n)) = Inl e
                 \<and> out = [warning (toks ! n) opening var e]
          else out = [])"
proof (induction toks arbitrary: board ucis fens sans)
  case Nil
  then show ?case by simp
next
  case (Cons tok toks)
  show ?case
  proof (cases "parse_san E board (tok_clean tok)")
    case (Inl e)
    with Cons.prems have "b = board" "us = ucis" "fs = fens" "ss = sans"
      "out = [warning tok opening var e]" by simp_all
    with Inl show ?thesis by (intro exI [of _ 0]) simp
  next
    case (Inr move)
    with Cons.prems have
      "token_loop E opening var toks
         (push E board move, ucis @ [uci E move], fens @ [fen E (push E board move)], sans @ [tok])
       = ((b, us, fs, ss), out)" by simp
    from Cons.IH [OF this] obtain n where n: "n \<le> length toks"
      "ss = (sans @ [tok]) @ take n toks" "length us = length (ucis @ [uci E move]) + n"
      "length fs = length (fens @ [fen E (push E board move)]) + n"
      "token_loop E opening var (take n toks)
         (push E board move, ucis @ [uci E move], fens @ [fen E (push E board move)], sans @ [tok])
       = ((b, us, fs, ss), [])"
      "if n < length toks
          then \<exists>e. parse_san E b (tok_clean (toks ! n)) = Inl e
                 \<and> out = [warning (toks ! n) opening var e]
          else out = []" by blast
    show ?thesis
      using n Inr by (intro exI [of _ "Suc n"]) (simp split: if_splits)
  qed
qed

lemma flush_variation_cases:
  "flush_variation E st = st \<or>
   (\<exists>opening var b us fs ss out.
      cur_opening st = Some opening \<and> cur_variation st = Some var
      \<and> strip (join_nl (cur_moves_lines st)) \<noteq> []
      \<and> token_loop E opening var (tokens_of (cur_moves_lines st))
            (Board E, [], [fen E (Board E)], []) = ((b, us, fs, ss), out)
      \<and> flush_variation E st =
          st\<lparr>openings := setdefault_append (openings st) opening
                 \<lparr>name = var, moves_san = ss, moves_uci = us, states_fen = fs\<rparr>,
             cur_moves_lines := [], printed := printed st @ out\<rparr>)"
  by (auto simp: flush_variation_def split: option.splits prod.splits)

lemma flush_variation_scan [simp]:
  "cur_opening (flush_variation E st) = cur_opening st"
  "cur_variation (flush_variation E st) = cur_variation st"
  by (auto simp: flush_variation_def split: option.splits prod.splits)

lemma flush_variation_inv:
  assumes inv: "\<forall>v \<in> set (variations_of (openings st)). P v"
    and new: "\<And>opening var lns b us fs ss out.
       strip (join_nl lns) \<noteq> [] \<Longrightarrow>
       token_loop E opening var (tokens_of lns) (Board E, [], [fen E (Board E)], [])
         = ((b, us, fs, ss), out) \<Longrightarrow>
       P \<lparr>name = var, moves_san = ss, moves_uci = us, states_fen = fs\<rparr>"
  shows "\<forall>v \<in> set (variations_of (openings (flush_variation E st))). P v"
proof -
  from flush_variation_cases [of E st] show ?thesis
  proof
    assume "flush_variation E st = st"
    with inv show ?thesis by simp
  next
    assume "\<exists>opening var b us fs ss out.
      cur_opening st = Some opening \<and> cur_variation st = Some var
      \<and> strip (join_nl (cur_moves_lines st)) \<noteq> []
      \<and> token_loop E opening var (tokens_of (cur_moves_lines st))
            (Board E, [], [fen E (Board E)], []) = ((b, us, fs, ss), out)
      \<and> flush_variation E st =
          st\<lparr>openings := setdefault_append (openings st) opening
                 \<lparr>name = var, moves_san = ss, moves_uci = us, states_fen = fs\<rparr>,
             cur_moves_lines := [], printed := printed st @ out\<rparr>"
    then obtain opn var b us fs ss out where
      nb: "strip (join_nl (cur_moves_lines st)) \<noteq> []"
      and tl: "token_loop E opn var (tokens_of (cur_moves_lines st))
            (Board E, [], [fen E (Board E)], []) = ((b, us, fs, ss), out)"
      and eq: "flush_variation E st =
          st\<lparr>openings := setdefault_append (openings st) opn
                 \<lparr>name = var, moves_san = ss, moves_uci = us, states_fen = fs\<rparr>,
             cur_moves_lines := [], printed := printed st @ out\<rparr>" by blast
    from new [OF nb tl] inv show ?thesis
      by (simp add: eq set_setdefault_append)
  qed
qed

lemma process_line_inv:
  assumes inv: "\<forall>v \<in> set (variations_of (openings st)). P v"
    and new: "\<And>opening var lns b us fs ss out.
       strip (join_nl lns) \<noteq> [] \<Longrightarrow>
       token_loop E opening var (tokens_of lns) (Board E, [], [fen E (Board E)], [])
         = ((b, us, fs, ss), out) \<Longrightarrow>
       P \<lparr>name = var, moves_san = ss, moves_uci = us, states_fen = fs\<rparr>"
  shows "\<forall>v \<in> set (variations_of (openings (process_line E line st))). P v"
  using flush_variation_inv [of st P E, OF inv new] inv
  by (simp add: process_line_def Let_def)

lemma process_lines_inv:
  assumes inv: "\<forall>v \<in> set (variations_of (openings st)). P v"
    and new: "\<And>opening var lns b us fs ss out.
       strip (join_nl lns) \<noteq> [] \<Longrightarrow>
       token_loop E opening var (tokens_of lns) (Board E, [], [fen E (Board E)], [])
         = ((b, us, fs, ss), out) \<Longrightarrow>
       P \<lparr>name = var, moves_san = ss, moves_uci = us, states_fen = fs\<rparr>"
  shows "\<forall>v \<in> set (variations_of (openings (process_lines E lines st))). P v"
  using inv
proof (induction lines arbitrary: st)
  case Nil
  then show ?case by simp
next
  case (Cons line lines)
  show ?case
    using Cons.IH [OF process_line_inv [of st P E line, OF Cons.prems new]] by simp
qed

lemma parse_file_inv:
  assumes inv: "\<forall>v \<in> set (variations_of (openings st)). P v"
    and new: "\<And>opening var lns b us fs ss out.
       strip (join_nl lns) \<noteq> [] \<Longrightarrow>
       token_loop E opening var (tokens_of lns) (Board E, [], [fen E (Board E)], [])
         = ((b, us, fs, ss), out) \<Longrightarrow>
       P \<lparr>name = var, moves_san = ss, moves_uci = us, states_fen = fs\<rparr>"
  shows "\<forall>v \<in> set (variations_of (openings (parse_file E t st))). P v"
proof -
  have "\<forall>v \<in> set (variations_of (openings
          (st\<lparr>cur_opening := None, cur_variation := None, cur_moves_lines := []\<rparr>))). P v"
    using inv by simp
  from flush_variation_inv [OF process_lines_inv [OF this new] new]
  show ?thesis by (simp add: parse_file_def)
qed

lemma parse_files_inv:
  assumes inv: "\<forall>v \<in> set (variations_of (openings st)). P v"
    and new: "\<And>opening var lns b us fs ss out.
       strip (join_nl lns) \<noteq> [] \<Longrightarrow>
       token_loop E opening var (tokens_of lns) (Board E, [], [fen E (Board E)], [])
         = ((b, us, fs, ss), out) \<Longrightarrow>
       P \<lparr>name = var, moves_san = ss, moves_uci = us, states_fen = fs\<rparr>"
  shows "\<forall>v \<in> set (variations_of (openings (parse_files E files st))). P v"
  using inv
proof (induction files arbitrary: st)
  case Nil
  then show ?case by simp
next
  case (Cons t ts)
  show ?case
    using Cons.IH [OF parse_file_inv [of st P E t, OF Cons.prems new]] by simp
qed

lemma parse_assets_inv:
  assumes new: "\<And>opening var lns b us fs ss out.
       strip (join_nl lns) \<noteq> [] \<Longrightarrow>
       token_loop E opening var (tokens_of lns) (Board E, [], [fen E (Board E)], [])
         = ((b, us, fs, ss), out) \<Longrightarrow>
       P \<lparr>name = var, moves_san = ss, moves_uci = us, states_fen = fs\<rparr>"
  shows "\<forall>v \<in> set (variations_of (parse_assets E files)). P v"
proof (cases "files = []")
  case True
  then show ?thesis by (simp add: parse_assets_def variations_of_def)
next
  case False
  have "\<forall>v \<in> set (variations_of (openings pstate0)). P v"
    by (simp add: pstate0_def variations_of_def)
  from parse_files_inv [OF this new] False show ?thesis
    by (simp add: parse_assets_def)
qed

lemma startswith_star2: "startswith s ''**'' \<Longrightarrow> startswith s ''*''"
  by (cases s) (auto simp: startswith_def)

lemma flush_variation_openings:
  "openings (flush_variation E st) = openings st \<or>
   (\<exists>opn v. cur_opening st = Some opn \<and> cur_variation st = Some (name v)
        \<and> strip (join_nl (cur_moves_lines st)) \<noteq> []
        \<and> openings (flush_variation E st) = setdefault_append (openings st) opn v)"
proof -
  from flush_variation_cases [of E st] show ?thesis
  proof
    assume "flush_variation E st = st"
    then show ?thesis by simp
  next
    assume "\<exists>opening var b us fs ss out.
      cur_opening st = Some opening \<and> cur_variation st = Some var
      \<and> strip (join_nl (cur_moves_lines st)) \<noteq> []
      \<and> token_loop E opening var (tokens_of (cur_moves_lines st))
            (Board E, [], [fen E (Board E)], []) = ((b, us, fs, ss), out)
      \<and> flush_variation E st =
          st\<lparr>openings := setdefault_append (openings st) opening
                 \<lparr>name = var, moves_san = ss, moves_uci = us, states_fen = fs\<rparr>,
             cur_moves_lines := [], printed := printed st @ out\<rparr>"
    then obtain opn var b us fs ss out where
      "cur_opening st = Some opn" "cur_variation st = Some var"
      "strip (join_nl (cur_moves_lines st)) \<noteq> []"
      "flush_variation E st =
          st\<lparr>openings := setdefault_append (openings st) opn
                 \<lparr>name = var, moves_san = ss, moves_uci = us, states_fen = fs\<rparr>,
             cur_moves_lines := [], printed := printed st @ out\<rparr>" by blast
    then have "cur_opening st = Some opn
        \<and> cur_variation st = Some (name \<lparr>name = var, moves_san = ss, moves_uci = us, states_fen = fs\<rparr>)
        \<and> strip (join_nl (cur_moves_lines st)) \<noteq> []
        \<and> openings (flush_variation E st) = setdefault_append (openings st) opn
             \<lparr>name = var, moves_san = ss, moves_uci = us, states_fen = fs\<rparr>" by simp
    then show ?thesis by blast
  qed
qed

lemma process_line_openings:
  "openings (process_line E line st) = openings st
   \<or> openings (process_line E line st) = openings (flush_variation E st)"
  by (simp add: process_line_def Let_def)

lemma distinct_setdefault_append:
  "distinct (map fst d) \<Longrightarrow> distinct (map fst (setdefault_append d k v))"
  by (simp add: keys_setdefault_append)

lemma flush_variation_distinct:
  "distinct (map fst (openings st)) \<Longrightarrow> distinct (map fst (openings (flush_variation E st)))"
  using flush_variation_openings [of E st] by (auto simp: distinct_setdefault_append)

lemma process_line_distinct:
  "distinct (map fst (openings st)) \<Longrightarrow> distinct (map fst (openings (process_line E line st)))"
  using process_line_openings [of E line st] flush_variation_distinct [of st E] by auto

lemma process_lines_distinct:
  "distinct (map fst (openings st)) \<Longrightarrow> distinct (map fst (openings (process_lines E lines st)))"
  by (induction lines arbitrary: st) (simp_all add: process_line_distinct)

lemma parse_file_distinct:
  "distinct (map fst (openings st)) \<Longrightarrow> distinct (map fst (openings (parse_file E t st)))"
  by (simp add: parse_file_def flush_variation_distinct process_lines_distinct)

lemma parse_files_distinct:
  "distinct (map fst (openings st)) \<Longrightarrow> distinct (map fst (openings (parse_files E ts st)))"
  by (induction ts arbitrary: st) (simp_all add: parse_file_distinct)

lemma setdefault_append_extends:
  "map_of d k = Some vs \<Longrightarrow> \<exists>vs'. map_of (setdefault_append d k' v) k = Some (vs @ vs')"
  by (cases "k = k'") (simp_all add: map_of_setdefault_append)

lemma flush_variation_extends:
  "map_of (openings st) k = Some vs \<Longrightarrow>
   \<exists>vs'. map_of (openings (flush_variation E st)) k = Some (vs @ vs')"
  using flush_variation_openings [of E st] setdefault_append_extends [of "openings st" k vs]
  by auto

lemma process_line_extends:
  "map_of (openings st) k = Some vs \<Longrightarrow>
   \<exists>vs'. map_of (openings (process_line E line st)) k = Some (vs @ vs')"
  using process_line_openings [of E line st] flush_variation_extends [of st k vs E] by auto

lemma process_lines_extends:
  "map_of (openings st) k = Some vs \<Longrightarrow>
   \<exists>vs'. map_of (openings (process_lines E lines st)) k = Some (vs @ vs')"
proof (induction lines arbitrary: st vs)
  case Nil
  then show ?case by simp
next
  case (Cons line lines)
  from process_line_extends [OF Cons.prems] obtain vs1 where
    "map_of (openings (process_line E line st)) k = Some (vs @ vs1)" by blast
  from Cons.IH [OF this] show ?case by auto
qed

lemma parse_file_extends:
  "map_of (openings st) k = Some vs \<Longrightarrow>
   \<exists>vs'. map_of (openings (parse_file E t st)) k = Some (vs @ vs')"
proof -
  assume "map_of (openings st) k = Some vs"
  then have "map_of (openings (st\<lparr>cur_opening := None, cur_variation := None,
                                   cur_moves_lines := []\<rparr>)) k = Some vs" by simp
  from process_lines_extends [OF this] obtain vs1 where
    "map_of (openings (process_lines E (splitlines t)
        (st\<lparr>cur_opening := None, cur_variation := None, cur_moves_lines := []\<rparr>))) k
     = Some (vs @ vs1)" by blast
  from flush_variation_extends [OF this] show ?thesis
    by (auto simp: parse_file_def)
qed





subsection \<open>The lines of a file, one at a time\<close>

lemma process_line_opening_header:
  "opening_header line \<Longrightarrow>
   process_line E line st
     = (flush_variation E st)\<lparr>cur_variation := None, cur_moves_lines := [],
                               cur_opening := Some (header_name (strip line))\<rparr>"
  by (simp add: process_line_def opening_header_def Let_def)

lemma process_line_variation_header:
  "variation_header line \<Longrightarrow>
   process_line E line st
     = (flush_variation E st)\<lparr>cur_variation := Some (header_name (strip line)),
                               cur_moves_lines := []\<rparr>"
  by (simp add: process_line_def variation_header_def Let_def)

lemma process_line_move_line:
  "move_line line \<Longrightarrow>
   process_line E line st
     = (if cur_variation st \<noteq> None \<and> strip line \<noteq> []
        then st\<lparr>cur_moves_lines := cur_moves_lines st @ [rstrip line]\<rparr> else st)"
  by (auto simp: process_line_def move_line_def Let_def dest: startswith_star2)

lemma process_line_stop:
  "\<not> move_line line \<Longrightarrow>
   openings (process_line E line st) = openings (flush_variation E st)
   \<and> printed (process_line E line st) = printed (flush_variation E st)"
  by (auto simp: process_line_def move_line_def Let_def)

lemma process_line_other:
  "\<not> move_line line \<Longrightarrow> \<not> opening_header line \<Longrightarrow> \<not> variation_header line \<Longrightarrow>
   process_line E line st = (flush_variation E st)\<lparr>cur_variation := None, cur_moves_lines := []\<rparr>"
  by (auto simp: process_line_def move_line_def opening_header_def variation_header_def Let_def)

lemma move_line_no_header:
  "move_line l \<Longrightarrow> \<not> opening_header l \<and> \<not> variation_header l"
  by (auto simp: move_line_def opening_header_def variation_header_def dest: startswith_star2)

lemma variation_header_no_opening: "variation_header l \<Longrightarrow> \<not> opening_header l"
  by (simp add: variation_header_def opening_header_def)

lemma process_line_cur_opening:
  "cur_opening (process_line E line st)
     = (if opening_header line then Some (header_name (strip line)) else cur_opening st)"
  by (simp add: process_line_def opening_header_def Let_def)

lemma process_lines_append:
  "process_lines E (xs @ ys) st = process_lines E ys (process_lines E xs st)"
  by (induction xs arbitrary: st) simp_all

lemma process_lines_cur_opening:
  "list_all (\<lambda>l. \<not> opening_header l) mid \<Longrightarrow>
   cur_opening (process_lines E mid st) = cur_opening st"
  by (induction mid arbitrary: st) (simp_all add: process_line_cur_opening)

lemma move_lines_append [simp]: "move_lines (xs @ ys) = move_lines xs @ move_lines ys"
  by (simp add: move_lines_def)

lemma process_lines_move_lines:
  "list_all move_line body \<Longrightarrow> cur_variation st \<noteq> None \<Longrightarrow>
   process_lines E body st = st\<lparr>cur_moves_lines := cur_moves_lines st @ move_lines body\<rparr>"
proof (induction body arbitrary: st)
  case Nil
  then show ?case by (simp add: move_lines_def)
next
  case (Cons l body)
  then show ?case
    by (simp add: process_line_move_line) (simp add: move_lines_def)
qed

subsection \<open>A variation block is stored\<close>

lemma flush_pending:
  assumes "cur_opening st = Some opn" "cur_variation st = Some vn"
    "strip (join_nl (cur_moves_lines st)) \<noteq> []"
  shows "flush_variation E st
     = st\<lparr>openings := setdefault_append (openings st) opn
                         (variation_obj E opn vn (cur_moves_lines st)),
          cur_moves_lines := [],
          printed := printed st @ flush_printed E opn vn (cur_moves_lines st)\<rparr>"
  using assms
  by (simp add: flush_variation_def variation_obj_def flush_printed_def split: prod.splits)

lemma pending_state:
  assumes "opening_header ohdr" "list_all (\<lambda>l. \<not> opening_header l) mid"
    "variation_header vhdr" "list_all move_line body"
  shows "cur_opening (process_lines E (pre @ ohdr # mid @ vhdr # body) st)
           = Some (header_name (strip ohdr))"
    and "cur_variation (process_lines E (pre @ ohdr # mid @ vhdr # body) st)
           = Some (header_name (strip vhdr))"
    and "cur_moves_lines (process_lines E (pre @ ohdr # mid @ vhdr # body) st) = move_lines body"
proof -
  let ?s0 = "process_lines E pre st"
  let ?s1 = "process_lines E mid (process_line E ohdr ?s0)"
  let ?s2 = "process_line E vhdr ?s1"
  have eq: "process_lines E (pre @ ohdr # mid @ vhdr # body) st = process_lines E body ?s2"
    by (simp add: process_lines_append)
  have o1: "cur_opening ?s1 = Some (header_name (strip ohdr))"
    using assms(1,2) by (simp add: process_lines_cur_opening process_line_cur_opening)
  have s2: "?s2 = (flush_variation E ?s1)\<lparr>cur_variation := Some (header_name (strip vhdr)),
                                            cur_moves_lines := []\<rparr>"
    using assms(3) by (rule process_line_variation_header)
  have s3: "process_lines E body ?s2 = ?s2\<lparr>cur_moves_lines := cur_moves_lines ?s2 @ move_lines body\<rparr>"
    using assms(4) by (rule process_lines_move_lines) (simp add: s2)
  show "cur_opening (process_lines E (pre @ ohdr # mid @ vhdr # body) st)
           = Some (header_name (strip ohdr))"
    unfolding eq s3 by (simp add: s2 o1)
  show "cur_variation (process_lines E (pre @ ohdr # mid @ vhdr # body) st)
           = Some (header_name (strip vhdr))"
    unfolding eq s3 by (simp add: s2)
  show "cur_moves_lines (process_lines E (pre @ ohdr # mid @ vhdr # body) st) = move_lines body"
    unfolding eq s3 by (simp add: s2)
qed

lemma flush_variation_printed: "\<exists>q. printed (flush_variation E st) = printed st @ q"
  by (auto simp: flush_variation_def split: option.splits prod.splits)

lemma process_line_printed: "\<exists>q. printed (process_line E line st) = printed st @ q"
  using flush_variation_printed [of E st] by (auto simp: process_line_def Let_def)

lemma process_lines_printed: "\<exists>q. printed (process_lines E ls st) = printed st @ q"
proof (induction ls arbitrary: st)
  case Nil
  then show ?case by simp
next
  case (Cons l ls)
  from process_line_printed [of E l st] obtain q1 where
    q1: "printed (process_line E l st) = printed st @ q1" by blast
  from Cons.IH [of "process_line E l st"] obtain q2 where
    "printed (process_lines E ls (process_line E l st)) = printed (process_line E l st) @ q2"
    by blast
  with q1 show ?case by simp
qed

lemma parse_file_printed: "\<exists>q. printed (parse_file E t st) = printed st @ q"
proof -
  let ?s = "st\<lparr>cur_opening := None, cur_variation := None, cur_moves_lines := []\<rparr>"
  from process_lines_printed [of E "splitlines t" ?s] obtain q1 where
    q1: "printed (process_lines E (splitlines t) ?s) = printed st @ q1" by auto
  from flush_variation_printed [of E "process_lines E (splitlines t) ?s"] obtain q2 where
    "printed (flush_variation E (process_lines E (splitlines t) ?s))
       = printed (process_lines E (splitlines t) ?s) @ q2" by blast
  with q1 show ?thesis by (simp add: parse_file_def)
qed

lemma parse_files_printed: "\<exists>q. printed (parse_files E ts st) = printed st @ q"
proof (induction ts arbitrary: st)
  case Nil
  then show ?case by simp
next
  case (Cons t ts)
  from parse_file_printed [of E t st] obtain q1 where
    q1: "printed (parse_file E t st) = printed st @ q1" by blast
  from Cons.IH [of "parse_file E t st"] obtain q2 where
    "printed (parse_files E ts (parse_file E t st)) = printed (parse_file E t st) @ q2" by blast
  with q1 show ?case by simp
qed

lemma parse_files_extends:
  "map_of (openings st) k = Some vs \<Longrightarrow>
   \<exists>vs'. map_of (openings (parse_files E ts st)) k = Some (vs @ vs')"
proof (induction ts arbitrary: st vs)
  case Nil
  then show ?case by simp
next
  case (Cons t ts)
  from parse_file_extends [OF Cons.prems] obtain vs1 where
    "map_of (openings (parse_file E t st)) k = Some (vs @ vs1)" by blast
  from Cons.IH [OF this] show ?case by auto
qed

text \<open>
  A state in which a variation with non-blank move text is open: whatever follows, a
  line that is not a move line or the end of the file, stores the variation at the end of
  the entry of its opening.
\<close>

lemma pending_stored_next:
  assumes "cur_opening s = Some opn" "cur_variation s = Some vn"
    "strip (join_nl (cur_moves_lines s)) \<noteq> []"
    "list_all (\<lambda>l. \<not> move_line l) (take 1 rest)" "rest \<noteq> []"
  shows "\<exists>ys. map_of (openings (process_lines E rest s)) opn
            = Some ((case map_of (openings s) opn of None \<Rightarrow> [] | Some vs \<Rightarrow> vs)
                    @ variation_obj E opn vn (cur_moves_lines s) # ys)"
    and "\<exists>q. printed (process_lines E rest s)
            = printed s @ flush_printed E opn vn (cur_moves_lines s) @ q"
proof -
  from assms(5) obtain r rest' where rest: "rest = r # rest'" by (cases rest) auto
  with assms(4) have r: "\<not> move_line r" by simp
  let ?s1 = "process_line E r s"
  have o1: "openings ?s1 = setdefault_append (openings s) opn
                             (variation_obj E opn vn (cur_moves_lines s))"
    and p1: "printed ?s1 = printed s @ flush_printed E opn vn (cur_moves_lines s)"
    using process_line_stop [OF r, of E s] by (simp_all add: flush_pending [OF assms(1,2,3)])
  have "map_of (openings ?s1) opn
          = Some ((case map_of (openings s) opn of None \<Rightarrow> [] | Some vs \<Rightarrow> vs)
                  @ [variation_obj E opn vn (cur_moves_lines s)])"
    by (simp add: o1 map_of_setdefault_append)
  from process_lines_extends [OF this, of E rest']
  show "\<exists>ys. map_of (openings (process_lines E rest s)) opn
            = Some ((case map_of (openings s) opn of None \<Rightarrow> [] | Some vs \<Rightarrow> vs)
                    @ variation_obj E opn vn (cur_moves_lines s) # ys)"
    by (simp add: rest)
  from process_lines_printed [of E rest' ?s1]
  show "\<exists>q. printed (process_lines E rest s)
            = printed s @ flush_printed E opn vn (cur_moves_lines s) @ q"
    by (simp add: rest p1)
qed

lemma pending_stored:
  assumes "cur_opening s = Some opn" "cur_variation s = Some vn"
    "strip (join_nl (cur_moves_lines s)) \<noteq> []"
    "list_all (\<lambda>l. \<not> move_line l) (take 1 rest)"
  shows "\<exists>ys. map_of (openings (flush_variation E (process_lines E rest s))) opn
            = Some ((case map_of (openings s) opn of None \<Rightarrow> [] | Some vs \<Rightarrow> vs)
                    @ variation_obj E opn vn (cur_moves_lines s) # ys)"
    and "\<exists>q. printed (flush_variation E (process_lines E rest s))
            = printed s @ flush_printed E opn vn (cur_moves_lines s) @ q"
proof -
  let ?xs = "case map_of (openings s) opn of None \<Rightarrow> [] | Some vs \<Rightarrow> vs"
  let ?v = "variation_obj E opn vn (cur_moves_lines s)"
  have "(\<exists>ys. map_of (openings (flush_variation E (process_lines E rest s))) opn
            = Some (?xs @ ?v # ys))
        \<and> (\<exists>q. printed (flush_variation E (process_lines E rest s))
            = printed s @ flush_printed E opn vn (cur_moves_lines s) @ q)"
  proof (cases "rest = []")
    case True
    then show ?thesis
      by (simp add: flush_pending [OF assms(1,2,3)] map_of_setdefault_append)
  next
    case False
    from pending_stored_next [OF assms False, of E] obtain ys q where
      a: "map_of (openings (process_lines E rest s)) opn = Some (?xs @ ?v # ys)"
      and b: "printed (process_lines E rest s)
            = printed s @ flush_printed E opn vn (cur_moves_lines s) @ q" by blast
    from flush_variation_extends [OF a, of E] flush_variation_printed [of E "process_lines E rest s"]
    show ?thesis by (auto simp: b)
  qed
  then show "\<exists>ys. map_of (openings (flush_variation E (process_lines E rest s))) opn
            = Some (?xs @ ?v # ys)"
    and "\<exists>q. printed (flush_variation E (process_lines E rest s))
            = printed s @ flush_printed E opn vn (cur_moves_lines s) @ q" by blast+
qed

subsection \<open>What is stored for a block\<close>

lemma variation_obj_prefix:
  assumes n: "n \<le> length (tokens_of lns)"
    and pre: "token_loop E opn vn (take n (tokens_of lns)) (Board E, [], [fen E (Board E)], [])
                = ((b, us, fs, ss), [])"
    and stop: "n < length (tokens_of lns) \<longrightarrow> parse_san E b (tok_clean (tokens_of lns ! n)) = Inl e"
  shows "variation_obj E opn vn lns
           = \<lparr>name = vn, moves_san = take n (tokens_of lns), moves_uci = us, states_fen = fs\<rparr>"
    and "flush_printed E opn vn lns
           = (if n < length (tokens_of lns) then [warning (tokens_of lns ! n) opn vn e] else [])"
    and "length us = n" and "length fs = Suc n"
proof -
  let ?toks = "tokens_of lns"
  let ?init = "(Board E, [] :: string list, [fen E (Board E)], [] :: string list)"
  from token_loop_shape [OF pre] obtain m where m: "m \<le> length (take n ?toks)"
    "ss = [] @ take m (take n ?toks)" "length us = length ([] :: string list) + m"
    "length fs = length [fen E (Board E)] + m"
    "if m < length (take n ?toks)
     then \<exists>e. parse_san E b (tok_clean (take n ?toks ! m)) = Inl e
            \<and> [] = [warning (take n ?toks ! m) opn vn e]
     else ([] :: string list) = []" by blast
  from m(5) have "\<not> m < length (take n ?toks)" by (auto split: if_splits)
  with m(1) n have mn: "m = n" by simp
  with m(2) have ss: "ss = take n ?toks" by simp
  from m(3,4) mn show "length us = n" "length fs = Suc n" by simp_all
  have whole: "token_loop E opn vn ?toks ?init
                 = token_loop E opn vn (drop n ?toks) (b, us, fs, ss)"
    using token_loop_append [of E opn vn "take n ?toks" "drop n ?toks" ?init]
    by (simp add: pre)
  have res: "token_loop E opn vn ?toks ?init
               = ((b, us, fs, ss),
                  if n < length ?toks then [warning (?toks ! n) opn vn e] else [])"
  proof (cases "n < length ?toks")
    case True
    then have "drop n ?toks = ?toks ! n # drop (Suc n) ?toks"
      by (simp add: Cons_nth_drop_Suc)
    with True stop show ?thesis by (simp add: whole)
  next
    case False
    with n show ?thesis by (simp add: whole)
  qed
  show "variation_obj E opn vn lns
           = \<lparr>name = vn, moves_san = take n ?toks, moves_uci = us, states_fen = fs\<rparr>"
    by (simp add: variation_obj_def res ss)
  show "flush_printed E opn vn lns
           = (if n < length ?toks then [warning (?toks ! n) opn vn e] else [])"
    by (simp add: flush_printed_def res)
qed

lemma variation_obj_shape:
  "\<exists>n b. n \<le> length (tokens_of lns)
     \<and> name (variation_obj E opn vn lns) = vn
     \<and> moves_san (variation_obj E opn vn lns) = take n (tokens_of lns)
     \<and> length (moves_uci (variation_obj E opn vn lns)) = n
     \<and> length (states_fen (variation_obj E opn vn lns)) = Suc n
     \<and> token_loop E opn vn (take n (tokens_of lns)) (Board E, [], [fen E (Board E)], [])
         = ((b, moves_uci (variation_obj E opn vn lns), states_fen (variation_obj E opn vn lns),
             moves_san (variation_obj E opn vn lns)), [])
     \<and> (if n < length (tokens_of lns)
         then \<exists>e. parse_san E b (tok_clean (tokens_of lns ! n)) = Inl e
                \<and> flush_printed E opn vn lns = [warning (tokens_of lns ! n) opn vn e]
         else flush_printed E opn vn lns = [])"
proof -
  obtain b us fs ss out where
    tl: "token_loop E opn vn (tokens_of lns) (Board E, [], [fen E (Board E)], [])
           = ((b, us, fs, ss), out)"
    by (metis prod_cases3 surj_pair)
  from token_loop_shape [OF tl] obtain n where n: "n \<le> length (tokens_of lns)"
    "ss = [] @ take n (tokens_of lns)" "length us = length ([] :: string list) + n"
    "length fs = length [fen E (Board E)] + n"
    "token_loop E opn vn (take n (tokens_of lns)) (Board E, [], [fen E (Board E)], [])
       = ((b, us, fs, ss), [])"
    "if n < length (tokens_of lns)
     then \<exists>e. parse_san E b (tok_clean (tokens_of lns ! n)) = Inl e
            \<and> out = [warning (tokens_of lns ! n) opn vn e]
     else out = []" by blast
  have v: "variation_obj E opn vn lns
             = \<lparr>name = vn, moves_san = ss, moves_uci = us, states_fen = fs\<rparr>"
    by (simp add: variation_obj_def tl)
  have p: "flush_printed E opn vn lns = out"
    by (simp add: flush_printed_def tl)
  from n show ?thesis
    by (intro exI [of _ n] exI [of _ b]) (simp add: v p)
qed

subsection \<open>Every stored variation comes from a block\<close>

lemma set_entries_setdefault_append:
  "set (entries (setdefault_append d k v)) = insert (k, v) (set (entries d))"
  by (induction d k v rule: setdefault_append.induct) (auto simp: entries_def)

lemma entries_map_of:
  "(k, v) \<in> set (entries d) \<Longrightarrow> distinct (map fst d) \<Longrightarrow>
   \<exists>vs. map_of d k = Some vs \<and> v \<in> set vs"
  by (auto simp: entries_def)

lemma map_of_entries:
  "map_of d k = Some vs \<Longrightarrow> v \<in> set vs \<Longrightarrow> (k, v) \<in> set (entries d)"
  by (force simp: entries_def dest: map_of_SomeD)

lemma scan_invI:
  assumes "\<And>opn. cur_opening st = Some opn \<Longrightarrow>
         \<exists>pre ohdr mid. seen = pre @ ohdr # mid \<and> opening_header ohdr
            \<and> list_all (\<lambda>l. \<not> opening_header l) mid \<and> opn = header_name (strip ohdr)"
    and "\<And>opn vn. cur_opening st = Some opn \<Longrightarrow> cur_variation st = Some vn \<Longrightarrow>
         \<exists>pre ohdr mid vhdr body. seen = pre @ ohdr # mid @ vhdr # body \<and> opening_header ohdr
            \<and> list_all (\<lambda>l. \<not> opening_header l) mid \<and> variation_header vhdr
            \<and> list_all move_line body \<and> opn = header_name (strip ohdr)
            \<and> vn = header_name (strip vhdr) \<and> cur_moves_lines st = move_lines body"
  shows "scan_inv seen st"
  using assms unfolding scan_inv_def by blast

lemma scan_inv_opening:
  "scan_inv seen st \<Longrightarrow> cur_opening st = Some opn \<Longrightarrow>
   \<exists>pre ohdr mid. seen = pre @ ohdr # mid \<and> opening_header ohdr
      \<and> list_all (\<lambda>l. \<not> opening_header l) mid \<and> opn = header_name (strip ohdr)"
  unfolding scan_inv_def by blast

lemma scan_inv_variation:
  "scan_inv seen st \<Longrightarrow> cur_opening st = Some opn \<Longrightarrow> cur_variation st = Some vn \<Longrightarrow>
   \<exists>pre ohdr mid vhdr body. seen = pre @ ohdr # mid @ vhdr # body \<and> opening_header ohdr
      \<and> list_all (\<lambda>l. \<not> opening_header l) mid \<and> variation_header vhdr
      \<and> list_all move_line body \<and> opn = header_name (strip ohdr)
      \<and> vn = header_name (strip vhdr) \<and> cur_moves_lines st = move_lines body"
  unfolding scan_inv_def by blast

lemma scan_inv_start:
  "cur_opening st = None \<Longrightarrow> scan_inv [] st"
  by (simp add: scan_inv_def)

lemma scan_inv_step:
  assumes inv: "scan_inv seen st"
  shows "scan_inv (seen @ [l]) (process_line E l st)"
proof -
  have keep: "\<exists>pre ohdr mid. seen @ [l] = pre @ ohdr # mid \<and> opening_header ohdr
      \<and> list_all (\<lambda>l. \<not> opening_header l) mid \<and> opn = header_name (strip ohdr)"
    if "cur_opening st = Some opn" "\<not> opening_header l" for opn
  proof -
    from scan_inv_opening [OF inv that(1)] obtain pre ohdr mid where
      "seen = pre @ ohdr # mid" "opening_header ohdr"
      "list_all (\<lambda>l. \<not> opening_header l) mid" "opn = header_name (strip ohdr)" by blast
    with that(2) have "seen @ [l] = pre @ ohdr # (mid @ [l]) \<and> opening_header ohdr
      \<and> list_all (\<lambda>l. \<not> opening_header l) (mid @ [l]) \<and> opn = header_name (strip ohdr)"
      by simp
    then show ?thesis by blast
  qed
  consider (oh) "opening_header l" | (vh) "variation_header l" | (ml) "move_line l"
    | (sep) "\<not> opening_header l" "\<not> variation_header l" "\<not> move_line l" by blast
  then show ?thesis
  proof cases
    case oh
    have st': "cur_opening (process_line E l st) = Some (header_name (strip l))"
      "cur_variation (process_line E l st) = None"
      by (simp_all add: process_line_opening_header [OF oh])
    show ?thesis
    proof (rule scan_invI)
      fix opn assume "cur_opening (process_line E l st) = Some opn"
      with st' have "opn = header_name (strip l)" by simp
      with oh have "seen @ [l] = seen @ l # [] \<and> opening_header l
        \<and> list_all (\<lambda>l. \<not> opening_header l) [] \<and> opn = header_name (strip l)" by simp
      then show "\<exists>pre ohdr mid. seen @ [l] = pre @ ohdr # mid \<and> opening_header ohdr
        \<and> list_all (\<lambda>l. \<not> opening_header l) mid \<and> opn = header_name (strip ohdr)" by blast
    next
      fix opn vn assume "cur_variation (process_line E l st) = Some vn"
      with st' show "\<exists>pre ohdr mid vhdr body. seen @ [l] = pre @ ohdr # mid @ vhdr # body
        \<and> opening_header ohdr \<and> list_all (\<lambda>l. \<not> opening_header l) mid \<and> variation_header vhdr
        \<and> list_all move_line body \<and> opn = header_name (strip ohdr)
        \<and> vn = header_name (strip vhdr)
        \<and> cur_moves_lines (process_line E l st) = move_lines body" by simp
    qed
  next
    case vh
    then have noh: "\<not> opening_header l" by (rule variation_header_no_opening)
    have st': "cur_opening (process_line E l st) = cur_opening st"
      "cur_variation (process_line E l st) = Some (header_name (strip l))"
      "cur_moves_lines (process_line E l st) = []"
      by (simp_all add: process_line_variation_header [OF vh])
    show ?thesis
    proof (rule scan_invI)
      fix opn assume "cur_opening (process_line E l st) = Some opn"
      then have "cur_opening st = Some opn" by (simp add: st')
      from keep [OF this noh]
      show "\<exists>pre ohdr mid. seen @ [l] = pre @ ohdr # mid \<and> opening_header ohdr
        \<and> list_all (\<lambda>l. \<not> opening_header l) mid \<and> opn = header_name (strip ohdr)" .
    next
      fix opn vn
      assume "cur_opening (process_line E l st) = Some opn"
        and "cur_variation (process_line E l st) = Some vn"
      then have co: "cur_opening st = Some opn" and vn: "vn = header_name (strip l)"
        by (simp_all add: st')
      from scan_inv_opening [OF inv co] obtain pre ohdr mid where
        "seen = pre @ ohdr # mid" "opening_header ohdr"
        "list_all (\<lambda>l. \<not> opening_header l) mid" "opn = header_name (strip ohdr)" by blast
      with vh vn st' have "seen @ [l] = pre @ ohdr # mid @ l # []
        \<and> opening_header ohdr \<and> list_all (\<lambda>l. \<not> opening_header l) mid \<and> variation_header l
        \<and> list_all move_line [] \<and> opn = header_name (strip ohdr)
        \<and> vn = header_name (strip l)
        \<and> cur_moves_lines (process_line E l st) = move_lines []"
        by (simp add: move_lines_def)
      then show "\<exists>pre ohdr mid vhdr body. seen @ [l] = pre @ ohdr # mid @ vhdr # body
        \<and> opening_header ohdr \<and> list_all (\<lambda>l. \<not> opening_header l) mid \<and> variation_header vhdr
        \<and> list_all move_line body \<and> opn = header_name (strip ohdr)
        \<and> vn = header_name (strip vhdr)
        \<and> cur_moves_lines (process_line E l st) = move_lines body" by blast
    qed
  next
    case ml
    then have noh: "\<not> opening_header l" by (simp add: move_line_no_header)
    have st': "cur_opening (process_line E l st) = cur_opening st"
      "cur_variation (process_line E l st) = cur_variation st"
      by (simp_all add: process_line_move_line [OF ml])
    have lns: "cur_moves_lines (process_line E l st) = cur_moves_lines st @ move_lines [l]"
      if "cur_variation st \<noteq> None"
      using that by (simp add: process_line_move_line [OF ml] move_lines_def)
    show ?thesis
    proof (rule scan_invI)
      fix opn assume "cur_opening (process_line E l st) = Some opn"
      then have "cur_opening st = Some opn" by (simp add: st')
      from keep [OF this noh]
      show "\<exists>pre ohdr mid. seen @ [l] = pre @ ohdr # mid \<and> opening_header ohdr
        \<and> list_all (\<lambda>l. \<not> opening_header l) mid \<and> opn = header_name (strip ohdr)" .
    next
      fix opn vn
      assume "cur_opening (process_line E l st) = Some opn"
        and "cur_variation (process_line E l st) = Some vn"
      then have co: "cur_opening st = Some opn" and cv: "cur_variation st = Some vn"
        by (simp_all add: st')
      from scan_inv_variation [OF inv co cv] obtain pre ohdr mid vhdr body where
        "seen = pre @ ohdr # mid @ vhdr # body" "opening_header ohdr"
        "list_all (\<lambda>l. \<not> opening_header l) mid" "variation_header vhdr"
        "list_all move_line body" "opn = header_name (strip ohdr)"
        "vn = header_name (strip vhdr)" "cur_moves_lines st = move_lines body" by blast
      with ml lns cv have "seen @ [l] = pre @ ohdr # mid @ vhdr # (body @ [l])
        \<and> opening_header ohdr \<and> list_all (\<lambda>l. \<not> opening_header l) mid \<and> variation_header vhdr
        \<and> list_all move_line (body @ [l]) \<and> opn = header_name (strip ohdr)
        \<and> vn = header_name (strip vhdr)
        \<and> cur_moves_lines (process_line E l st) = move_lines (body @ [l])"
        by simp
      then show "\<exists>pre ohdr mid vhdr body. seen @ [l] = pre @ ohdr # mid @ vhdr # body
        \<and> opening_header ohdr \<and> list_all (\<lambda>l. \<not> opening_header l) mid \<and> variation_header vhdr
        \<and> list_all move_line body \<and> opn = header_name (strip ohdr)
        \<and> vn = header_name (strip vhdr)
        \<and> cur_moves_lines (process_line E l st) = move_lines body" by blast
    qed
  next
    case sep
    have st': "cur_opening (process_line E l st) = cur_opening st"
      "cur_variation (process_line E l st) = None"
      by (simp_all add: process_line_other [OF sep(3,1,2)])
    show ?thesis
    proof (rule scan_invI)
      fix opn assume "cur_opening (process_line E l st) = Some opn"
      then have "cur_opening st = Some opn" by (simp add: st')
      from keep [OF this sep(1)]
      show "\<exists>pre ohdr mid. seen @ [l] = pre @ ohdr # mid \<and> opening_header ohdr
        \<and> list_all (\<lambda>l. \<not> opening_header l) mid \<and> opn = header_name (strip ohdr)" .
    next
      fix opn vn assume "cur_variation (process_line E l st) = Some vn"
      with st' show "\<exists>pre ohdr mid vhdr body. seen @ [l] = pre @ ohdr # mid @ vhdr # body
        \<and> opening_header ohdr \<and> list_all (\<lambda>l. \<not> opening_header l) mid \<and> variation_header vhdr
        \<and> list_all move_line body \<and> opn = header_name (strip ohdr)
        \<and> vn = header_name (strip vhdr)
        \<and> cur_moves_lines (process_line E l st) = move_lines body" by simp
    qed
  qed
qed

text \<open>
  \<open>P\<close> is any property of an opening name and a variation that holds of what is stored
  for each block of the lines \<open>ls\<close> with non-blank move text.
\<close>

lemma flush_variation_prov:
  assumes inv: "scan_inv seen st"
    and Q: "\<forall>kv \<in> set (entries (openings st)). P (fst kv) (snd kv)"
    and stop: "list_all (\<lambda>l. \<not> move_line l) (take 1 rest)"
    and new: "\<And>pre ohdr mid vhdr body.
       seen @ rest = pre @ ohdr # mid @ vhdr # body @ rest \<Longrightarrow> block ohdr mid vhdr body rest \<Longrightarrow>
       strip (join_nl (move_lines body)) \<noteq> [] \<Longrightarrow>
       P (header_name (strip ohdr))
         (variation_obj E (header_name (strip ohdr)) (header_name (strip vhdr)) (move_lines body))"
  shows "\<forall>kv \<in> set (entries (openings (flush_variation E st))). P (fst kv) (snd kv)"
proof (cases "cur_opening st = None \<or> cur_variation st = None
               \<or> strip (join_nl (cur_moves_lines st)) = []")
  case True
  then have "flush_variation E st = st"
    by (auto simp: flush_variation_def split: option.splits)
  with Q show ?thesis by simp
next
  case False
  then obtain opn vn where co: "cur_opening st = Some opn" and cv: "cur_variation st = Some vn"
    and nb: "strip (join_nl (cur_moves_lines st)) \<noteq> []" by auto
  from scan_inv_variation [OF inv co cv] obtain pre ohdr mid vhdr body where
    d: "seen = pre @ ohdr # mid @ vhdr # body" "opening_header ohdr"
    "list_all (\<lambda>l. \<not> opening_header l) mid" "variation_header vhdr"
    "list_all move_line body" "opn = header_name (strip ohdr)"
    "vn = header_name (strip vhdr)" "cur_moves_lines st = move_lines body" by blast
  have "seen @ rest = pre @ ohdr # mid @ vhdr # body @ rest" using d(1) by simp
  moreover have "block ohdr mid vhdr body rest" using d stop by (simp add: block_def)
  moreover have "strip (join_nl (move_lines body)) \<noteq> []" using nb d(8) by simp
  ultimately have "P (header_name (strip ohdr))
         (variation_obj E (header_name (strip ohdr)) (header_name (strip vhdr)) (move_lines body))"
    by (rule new)
  then have "P opn (variation_obj E opn vn (cur_moves_lines st))" using d by simp
  with Q show ?thesis
    by (simp add: flush_pending [OF co cv nb] set_entries_setdefault_append)
qed

lemma process_lines_prov:
  assumes inv: "scan_inv seen st"
    and Q: "\<forall>kv \<in> set (entries (openings st)). P (fst kv) (snd kv)"
    and ls: "ls = seen @ todo"
    and new: "\<And>pre ohdr mid vhdr body rest.
       ls = pre @ ohdr # mid @ vhdr # body @ rest \<Longrightarrow> block ohdr mid vhdr body rest \<Longrightarrow>
       strip (join_nl (move_lines body)) \<noteq> [] \<Longrightarrow>
       P (header_name (strip ohdr))
         (variation_obj E (header_name (strip ohdr)) (header_name (strip vhdr)) (move_lines body))"
  shows "scan_inv ls (process_lines E todo st)
     \<and> (\<forall>kv \<in> set (entries (openings (process_lines E todo st))). P (fst kv) (snd kv))"
  using inv Q ls
proof (induction todo arbitrary: seen st)
  case Nil
  then show ?case by simp
next
  case (Cons l todo)
  have i1: "scan_inv (seen @ [l]) (process_line E l st)"
    using Cons.prems(1) by (rule scan_inv_step)
  have q1: "\<forall>kv \<in> set (entries (openings (process_line E l st))). P (fst kv) (snd kv)"
  proof (cases "move_line l")
    case True
    then have "openings (process_line E l st) = openings st"
      by (simp add: process_line_move_line)
    with Cons.prems(2) show ?thesis by simp
  next
    case False
    then have stop: "list_all (\<lambda>l. \<not> move_line l) (take 1 (l # todo))" by simp
    have "\<forall>kv \<in> set (entries (openings (flush_variation E st))). P (fst kv) (snd kv)"
    proof (rule flush_variation_prov [OF Cons.prems(1,2) stop])
      fix pre ohdr mid vhdr body
      assume "seen @ l # todo = pre @ ohdr # mid @ vhdr # body @ l # todo"
        "block ohdr mid vhdr body (l # todo)" "strip (join_nl (move_lines body)) \<noteq> []"
      with Cons.prems(3)
      show "P (header_name (strip ohdr))
         (variation_obj E (header_name (strip ohdr)) (header_name (strip vhdr)) (move_lines body))"
        by (intro new [of pre ohdr mid vhdr body "l # todo"]) simp_all
    qed
    with process_line_stop [OF False, of E st] show ?thesis by simp
  qed
  have "ls = (seen @ [l]) @ todo" using Cons.prems(3) by simp
  from Cons.IH [OF i1 q1 this] show ?case by simp
qed

lemma parse_file_prov:
  assumes Q: "\<forall>kv \<in> set (entries (openings st)). P (fst kv) (snd kv)"
    and new: "\<And>pre ohdr mid vhdr body rest.
       splitlines t = pre @ ohdr # mid @ vhdr # body @ rest \<Longrightarrow> block ohdr mid vhdr body rest \<Longrightarrow>
       strip (join_nl (move_lines body)) \<noteq> [] \<Longrightarrow>
       P (header_name (strip ohdr))
         (variation_obj E (header_name (strip ohdr)) (header_name (strip vhdr)) (move_lines body))"
  shows "\<forall>kv \<in> set (entries (openings (parse_file E t st))). P (fst kv) (snd kv)"
proof -
  let ?s = "st\<lparr>cur_opening := None, cur_variation := None, cur_moves_lines := []\<rparr>"
  have i0: "scan_inv [] ?s" by (rule scan_inv_start) simp
  have q0: "\<forall>kv \<in> set (entries (openings ?s)). P (fst kv) (snd kv)" using Q by simp
  have l0: "splitlines t = [] @ splitlines t" by simp
  have both: "scan_inv (splitlines t) (process_lines E (splitlines t) ?s)
     \<and> (\<forall>kv \<in> set (entries (openings (process_lines E (splitlines t) ?s))). P (fst kv) (snd kv))"
    by (rule process_lines_prov [OF i0 q0 l0]) (rule new)
  then have i1: "scan_inv (splitlines t) (process_lines E (splitlines t) ?s)"
    and q1: "\<forall>kv \<in> set (entries (openings (process_lines E (splitlines t) ?s))).
               P (fst kv) (snd kv)" by blast+
  have stop: "list_all (\<lambda>l. \<not> move_line l) (take 1 ([] :: string list))" by simp
  have "\<forall>kv \<in> set (entries (openings (flush_variation E (process_lines E (splitlines t) ?s)))).
          P (fst kv) (snd kv)"
  proof (rule flush_variation_prov [OF i1 q1 stop])
    fix pre ohdr mid vhdr body
    assume "splitlines t @ [] = pre @ ohdr # mid @ vhdr # body @ []"
      "block ohdr mid vhdr body []" "strip (join_nl (move_lines body)) \<noteq> []"
    then show "P (header_name (strip ohdr))
         (variation_obj E (header_name (strip ohdr)) (header_name (strip vhdr)) (move_lines body))"
      by (intro new [of pre ohdr mid vhdr body "[]"]) simp_all
  qed
  then show ?thesis by (simp add: parse_file_def)
qed

lemma parse_files_prov:
  assumes Q: "\<forall>kv \<in> set (entries (openings st)). P (fst kv) (snd kv)"
    and new: "\<And>t pre ohdr mid vhdr body rest. t \<in> set ts \<Longrightarrow>
       splitlines t = pre @ ohdr # mid @ vhdr # body @ rest \<Longrightarrow> block ohdr mid vhdr body rest \<Longrightarrow>
       strip (join_nl (move_lines body)) \<noteq> [] \<Longrightarrow>
       P (header_name (strip ohdr))
         (variation_obj E (header_name (strip ohdr)) (header_name (strip vhdr)) (move_lines body))"
  shows "\<forall>kv \<in> set (entries (openings (parse_files E ts st))). P (fst kv) (snd kv)"
  using Q new
proof (induction ts arbitrary: st)
  case Nil
  then show ?case by simp
next
  case (Cons t ts)
  have "\<forall>kv \<in> set (entries (openings (parse_file E t st))). P (fst kv) (snd kv)"
    using Cons.prems(1)
  proof (rule parse_file_prov)
    fix pre ohdr mid vhdr body rest
    assume "splitlines t = pre @ ohdr # mid @ vhdr # body @ rest"
      "block ohdr mid vhdr body rest" "strip (join_nl (move_lines body)) \<noteq> []"
    then show "P (header_name (strip ohdr))
         (variation_obj E (header_name (strip ohdr)) (header_name (strip vhdr)) (move_lines body))"
      by (intro Cons.prems(2) [of t pre ohdr mid vhdr body rest]) simp_all
  qed
  then have "\<forall>kv \<in> set (entries (openings (parse_files E ts (parse_file E t st)))).
               P (fst kv) (snd kv)"
  proof (rule Cons.IH)
    fix t' pre ohdr mid vhdr body rest
    assume "t' \<in> set ts" "splitlines t' = pre @ ohdr # mid @ vhdr # body @ rest"
      "block ohdr mid vhdr body rest" "strip (join_nl (move_lines body)) \<noteq> []"
    then show "P (header_name (strip ohdr))
         (variation_obj E (header_name (strip ohdr)) (header_name (strip vhdr)) (move_lines body))"
      by (intro Cons.prems(2) [of t' pre ohdr mid vhdr body rest]) simp_all
  qed
  then show ?case by simp
qed

lemma parse_assets_prov:
  "\<forall>kv \<in> set (entries (parse_assets E files)).
     \<exists>t pre ohdr mid vhdr body rest.
       t \<in> set files \<and> splitlines t = pre @ ohdr # mid @ vhdr # body @ rest
       \<and> block ohdr mid vhdr body rest \<and> strip (join_nl (move_lines body)) \<noteq> []
       \<and> fst kv = header_name (strip ohdr)
       \<and> snd kv = variation_obj E (header_name (strip ohdr)) (header_name (strip vhdr))
                     (move_lines body)"
proof (cases "files = []")
  case True
  then show ?thesis by (simp add: parse_assets_def entries_def)
next
  case False
  let ?P = "\<lambda>k v. \<exists>t pre ohdr mid vhdr body rest.
       t \<in> set files \<and> splitlines t = pre @ ohdr # mid @ vhdr # body @ rest
       \<and> block ohdr mid vhdr body rest \<and> strip (join_nl (move_lines body)) \<noteq> []
       \<and> k = header_name (strip ohdr)
       \<and> v = variation_obj E (header_name (strip ohdr)) (header_name (strip vhdr))
                (move_lines body)"
  have q0: "\<forall>kv \<in> set (entries (openings pstate0)). ?P (fst kv) (snd kv)"
    by (simp add: pstate0_def entries_def)
  have "\<forall>kv \<in> set (entries (openings (parse_files E files pstate0))). ?P (fst kv) (snd kv)"
  proof (rule parse_files_prov [where P = ?P, OF q0])
    fix t pre ohdr mid vhdr body rest
    assume "t \<in> set files" "splitlines t = pre @ ohdr # mid @ vhdr # body @ rest"
      "block ohdr mid vhdr body rest" "strip (join_nl (move_lines body)) \<noteq> []"
    then show "?P (header_name (strip ohdr))
         (variation_obj E (header_name (strip ohdr)) (header_name (strip vhdr)) (move_lines body))"
      by blast
  qed
  with False show ?thesis by (simp add: parse_assets_def)
qed

subsection \<open>Entries only grow at their end\<close>

lemma entry_setdefault_append:
  "entry (setdefault_append d k v) k' = (if k' = k then entry d k @ [v] else entry d k')"
  by (simp add: entry_def map_of_setdefault_append)

lemma flush_variation_entry:
  "\<exists>m. entry (openings (flush_variation E st)) k = entry (openings st) k @ m"
  using flush_variation_openings [of E st] by (auto simp: entry_setdefault_append)

lemma process_line_entry:
  "\<exists>m. entry (openings (process_line E line st)) k = entry (openings st) k @ m"
  using process_line_openings [of E line st] flush_variation_entry [of E st k] by auto

lemma process_lines_entry:
  "\<exists>m. entry (openings (process_lines E ls st)) k = entry (openings st) k @ m"
proof (induction ls arbitrary: st)
  case Nil
  then show ?case by simp
next
  case (Cons l ls)
  from process_line_entry [of E l st k] obtain m1 where
    m1: "entry (openings (process_line E l st)) k = entry (openings st) k @ m1" by blast
  from Cons.IH [of "process_line E l st"] obtain m2 where
    "entry (openings (process_lines E ls (process_line E l st))) k
       = entry (openings (process_line E l st)) k @ m2" by blast
  with m1 show ?case by simp
qed

lemma parse_file_entry:
  "\<exists>m. entry (openings (parse_file E t st)) k = entry (openings st) k @ m"
proof -
  let ?s = "st\<lparr>cur_opening := None, cur_variation := None, cur_moves_lines := []\<rparr>"
  from process_lines_entry [of E "splitlines t" ?s k] obtain m1 where
    m1: "entry (openings (process_lines E (splitlines t) ?s)) k = entry (openings st) k @ m1"
    by auto
  from flush_variation_entry [of E "process_lines E (splitlines t) ?s" k] obtain m2 where
    "entry (openings (flush_variation E (process_lines E (splitlines t) ?s))) k
       = entry (openings (process_lines E (splitlines t) ?s)) k @ m2" by blast
  with m1 show ?thesis by (simp add: parse_file_def)
qed

lemma parse_files_entry:
  "\<exists>m. entry (openings (parse_files E ts st)) k = entry (openings st) k @ m"
proof (induction ts arbitrary: st)
  case Nil
  then show ?case by simp
next
  case (Cons t ts)
  from parse_file_entry [of E t st k] obtain m1 where
    m1: "entry (openings (parse_file E t st)) k = entry (openings st) k @ m1" by blast
  from Cons.IH [of "parse_file E t st"] obtain m2 where
    "entry (openings (parse_files E ts (parse_file E t st))) k
       = entry (openings (parse_file E t st)) k @ m2" by blast
  with m1 show ?case by simp
qed

lemma parse_files_append:
  "parse_files E (xs @ ys) st = parse_files E ys (parse_files E xs st)"
  by (induction xs arbitrary: st) simp_all

lemma entry_Some: "map_of d k = Some vs \<Longrightarrow> entry d k = vs"
  by (simp add: entry_def)

subsection \<open>The blocks of a file are stored, in their order\<close>

lemma process_lines_block:
  assumes b: "block ohdr mid vhdr body rest"
    and nb: "strip (join_nl (move_lines body)) \<noteq> []"
  shows "\<exists>m ys. map_of (openings (flush_variation E
                    (process_lines E (pre @ ohdr # mid @ vhdr # body @ rest) s)))
                  (header_name (strip ohdr))
            = Some (entry (openings s) (header_name (strip ohdr)) @ m
                    @ variation_obj E (header_name (strip ohdr)) (header_name (strip vhdr))
                        (move_lines body) # ys)"
    and "\<exists>p q. printed (flush_variation E
                    (process_lines E (pre @ ohdr # mid @ vhdr # body @ rest) s))
            = printed s @ p
              @ flush_printed E (header_name (strip ohdr)) (header_name (strip vhdr))
                  (move_lines body) @ q"
proof -
  let ?k = "header_name (strip ohdr)" and ?vn = "header_name (strip vhdr)"
  let ?A = "pre @ ohdr # mid @ vhdr # body"
  let ?s3 = "process_lines E ?A s"
  from b have oh: "opening_header ohdr" and mid: "list_all (\<lambda>l. \<not> opening_header l) mid"
    and vh: "variation_header vhdr" and bd: "list_all move_line body"
    and stop: "list_all (\<lambda>l. \<not> move_line l) (take 1 rest)" by (simp_all add: block_def)
  have eq: "process_lines E (pre @ ohdr # mid @ vhdr # body @ rest) s = process_lines E rest ?s3"
    using process_lines_append [of E ?A rest s] by simp
  note ps = pending_state [OF oh mid vh bd, of E pre s]
  have nb': "strip (join_nl (cur_moves_lines ?s3)) \<noteq> []" using nb ps(3) by simp
  from process_lines_entry [of E ?A s ?k] obtain m where
    m: "entry (openings ?s3) ?k = entry (openings s) ?k @ m" by blast
  from process_lines_printed [of E ?A s] obtain p where
    p: "printed ?s3 = printed s @ p" by blast
  from pending_stored(1) [OF ps(1,2) nb' stop, of E] obtain ys where
    "map_of (openings (flush_variation E (process_lines E rest ?s3))) ?k
       = Some (entry (openings ?s3) ?k @ variation_obj E ?k ?vn (cur_moves_lines ?s3) # ys)"
    unfolding entry_def by blast
  then have "map_of (openings (flush_variation E (process_lines E (pre @ ohdr # mid @ vhdr # body @ rest) s))) ?k
       = Some (entry (openings s) ?k @ m @ variation_obj E ?k ?vn (move_lines body) # ys)"
    unfolding eq m ps(3) by simp
  then show "\<exists>m ys. map_of (openings (flush_variation E
                    (process_lines E (pre @ ohdr # mid @ vhdr # body @ rest) s))) ?k
            = Some (entry (openings s) ?k @ m @ variation_obj E ?k ?vn (move_lines body) # ys)"
    by blast
  from pending_stored(2) [OF ps(1,2) nb' stop, of E] obtain q where
    "printed (flush_variation E (process_lines E rest ?s3))
       = printed ?s3 @ flush_printed E ?k ?vn (cur_moves_lines ?s3) @ q" by blast
  then have "printed (flush_variation E (process_lines E (pre @ ohdr # mid @ vhdr # body @ rest) s))
       = printed s @ p @ flush_printed E ?k ?vn (move_lines body) @ q"
    unfolding eq p ps(3) by simp
  then show "\<exists>p q. printed (flush_variation E
                    (process_lines E (pre @ ohdr # mid @ vhdr # body @ rest) s))
            = printed s @ p @ flush_printed E ?k ?vn (move_lines body) @ q"
    by blast
qed

lemma append_eq_longer:
  "A @ r1 = B @ r2 \<Longrightarrow> length A < length B \<Longrightarrow> \<exists>R. B = A @ R \<and> r1 = R @ r2 \<and> R \<noteq> []"
  by (auto simp: append_eq_append_conv2)

lemma take1_append: "xs \<noteq> [] \<Longrightarrow> take 1 (xs @ ys) = take 1 xs"
  by (cases xs) simp_all

lemma process_lines_two_blocks:
  assumes d1: "ls = pre1 @ ohdr1 # mid1 @ vhdr1 # body1 @ rest1"
    and d2: "ls = pre2 @ ohdr2 # mid2 @ vhdr2 # body2 @ rest2"
    and b1: "block ohdr1 mid1 vhdr1 body1 rest1"
    and b2: "block ohdr2 mid2 vhdr2 body2 rest2"
    and before: "length (pre1 @ ohdr1 # mid1 @ vhdr1 # body1) \<le> length (pre2 @ ohdr2 # mid2)"
    and same: "header_name (strip ohdr2) = header_name (strip ohdr1)"
    and nb1: "strip (join_nl (move_lines body1)) \<noteq> []"
    and nb2: "strip (join_nl (move_lines body2)) \<noteq> []"
  shows "\<exists>m ys zs. map_of (openings (flush_variation E (process_lines E ls s)))
                     (header_name (strip ohdr1))
            = Some (entry (openings s) (header_name (strip ohdr1)) @ m
                    @ variation_obj E (header_name (strip ohdr1)) (header_name (strip vhdr1))
                        (move_lines body1) # ys
                    @ variation_obj E (header_name (strip ohdr1)) (header_name (strip vhdr2))
                        (move_lines body2) # zs)"
proof -
  let ?k = "header_name (strip ohdr1)"
  let ?vn1 = "header_name (strip vhdr1)" and ?vn2 = "header_name (strip vhdr2)"
  let ?A = "pre1 @ ohdr1 # mid1 @ vhdr1 # body1"
  let ?B = "pre2 @ ohdr2 # mid2 @ vhdr2 # body2"
  let ?v1 = "variation_obj E ?k ?vn1 (move_lines body1)"
  let ?v2 = "variation_obj E ?k ?vn2 (move_lines body2)"
  from b1 have oh1: "opening_header ohdr1" and mid1: "list_all (\<lambda>l. \<not> opening_header l) mid1"
    and vh1: "variation_header vhdr1" and bd1: "list_all move_line body1"
    and stop1: "list_all (\<lambda>l. \<not> move_line l) (take 1 rest1)" by (simp_all add: block_def)
  from b2 have oh2: "opening_header ohdr2" and mid2: "list_all (\<lambda>l. \<not> opening_header l) mid2"
    and vh2: "variation_header vhdr2" and bd2: "list_all move_line body2"
    and stop2: "list_all (\<lambda>l. \<not> move_line l) (take 1 rest2)" by (simp_all add: block_def)
  have lt: "length ?A < length ?B" using before by simp
  have "?A @ rest1 = ?B @ rest2" using d1 d2 by simp
  from append_eq_longer [OF this lt] obtain R where
    R: "?B = ?A @ R" "rest1 = R @ rest2" and Rne: "R \<noteq> []" by blast
  let ?s3 = "process_lines E ?A s"
  let ?s4 = "process_lines E ?B s"
  have s4: "?s4 = process_lines E R ?s3"
    unfolding R(1) by (rule process_lines_append)
  have fin: "process_lines E ls s = process_lines E rest2 ?s4"
    using process_lines_append [of E ?B rest2 s] d2 by simp
  note ps1 = pending_state [OF oh1 mid1 vh1 bd1, of E pre1 s]
  note ps2 = pending_state [OF oh2 mid2 vh2 bd2, of E pre2 s]
  have nb1': "strip (join_nl (cur_moves_lines ?s3)) \<noteq> []" using nb1 ps1(3) by simp
  have nb2': "strip (join_nl (cur_moves_lines ?s4)) \<noteq> []" using nb2 ps2(3) by simp
  have stopR: "list_all (\<lambda>l. \<not> move_line l) (take 1 R)"
    using stop1 Rne by (simp add: R(2) take1_append)
  from process_lines_entry [of E ?A s ?k] obtain m where
    m: "entry (openings ?s3) ?k = entry (openings s) ?k @ m" by blast
  from pending_stored_next(1) [OF ps1(1,2) nb1' stopR Rne, of E] obtain ys where
    "map_of (openings (process_lines E R ?s3)) ?k
       = Some (entry (openings ?s3) ?k @ variation_obj E ?k ?vn1 (cur_moves_lines ?s3) # ys)"
    unfolding entry_def by blast
  then have e4: "entry (openings ?s4) ?k = entry (openings s) ?k @ m @ ?v1 # ys"
    unfolding s4 [symmetric] m ps1(3) by (simp add: entry_Some)
  have co2: "cur_opening ?s4 = Some ?k" using ps2(1) same by simp
  from pending_stored(1) [OF co2 ps2(2) nb2' stop2, of E] obtain zs where
    "map_of (openings (flush_variation E (process_lines E rest2 ?s4))) ?k
       = Some (entry (openings ?s4) ?k @ variation_obj E ?k ?vn2 (cur_moves_lines ?s4) # zs)"
    unfolding entry_def by blast
  then have "map_of (openings (flush_variation E (process_lines E ls s))) ?k
       = Some (entry (openings s) ?k @ m @ ?v1 # ys @ ?v2 # zs)"
    unfolding fin e4 ps2(3) by simp
  then show ?thesis by blast
qed

subsection \<open>The same, of the files of a load\<close>

lemma parse_assets_block:
  assumes t: "t \<in> set files"
    and d: "splitlines t = pre @ ohdr # mid @ vhdr # body @ rest"
    and b: "block ohdr mid vhdr body rest"
    and nb: "strip (join_nl (move_lines body)) \<noteq> []"
  shows "\<exists>xs ys. map_of (parse_assets E files) (header_name (strip ohdr))
            = Some (xs @ variation_obj E (header_name (strip ohdr)) (header_name (strip vhdr))
                            (move_lines body) # ys)"
    and "\<exists>p q. parse_assets_printed E files
            = p @ flush_printed E (header_name (strip ohdr)) (header_name (strip vhdr))
                    (move_lines body) @ q"
proof -
  let ?k = "header_name (strip ohdr)" and ?vn = "header_name (strip vhdr)"
  let ?v = "variation_obj E ?k ?vn (move_lines body)"
  from t obtain fs1 fs2 where fs: "files = fs1 @ t # fs2" by (auto dest: split_list)
  then have ne: "files \<noteq> []" by simp
  let ?s1 = "parse_files E fs1 pstate0"
  let ?s0 = "?s1\<lparr>cur_opening := None, cur_variation := None, cur_moves_lines := []\<rparr>"
  have pf: "parse_files E files pstate0 = parse_files E fs2 (parse_file E t ?s1)"
    by (simp add: fs parse_files_append)
  have t1: "parse_file E t ?s1
              = flush_variation E (process_lines E (pre @ ohdr # mid @ vhdr # body @ rest) ?s0)"
    by (simp add: parse_file_def d)
  from process_lines_block(1) [OF b nb, of E pre ?s0] obtain m ys where
    "map_of (openings (parse_file E t ?s1)) ?k = Some (entry (openings ?s0) ?k @ m @ ?v # ys)"
    unfolding t1 by blast
  from parse_files_extends [OF this, of E fs2] obtain vs' where
    "map_of (openings (parse_files E files pstate0)) ?k
       = Some ((entry (openings ?s0) ?k @ m @ ?v # ys) @ vs')"
    unfolding pf by blast
  then have "map_of (parse_assets E files) ?k
       = Some ((entry (openings ?s0) ?k @ m) @ ?v # (ys @ vs'))"
    using ne by (simp add: parse_assets_def)
  then show "\<exists>xs ys. map_of (parse_assets E files) ?k = Some (xs @ ?v # ys)" by blast
  from process_lines_block(2) [OF b nb, of E pre ?s0] obtain p q where
    "printed (parse_file E t ?s1) = printed ?s0 @ p @ flush_printed E ?k ?vn (move_lines body) @ q"
    unfolding t1 by blast
  moreover from parse_files_printed [of E fs2 "parse_file E t ?s1"] obtain q' where
    "printed (parse_files E files pstate0) = printed (parse_file E t ?s1) @ q'"
    unfolding pf by blast
  ultimately have "parse_assets_printed E files
       = (printed ?s0 @ p) @ flush_printed E ?k ?vn (move_lines body) @ (q @ q')"
    using ne by (simp add: parse_assets_printed_def)
  then show "\<exists>p q. parse_assets_printed E files
            = p @ flush_printed E ?k ?vn (move_lines body) @ q" by blast
qed

lemma parse_assets_two_blocks:
  assumes t: "t \<in> set files"
    and d1: "splitlines t = pre1 @ ohdr1 # mid1 @ vhdr1 # body1 @ rest1"
    and d2: "splitlines t = pre2 @ ohdr2 # mid2 @ vhdr2 # body2 @ rest2"
    and b1: "block ohdr1 mid1 vhdr1 body1 rest1"
    and b2: "block ohdr2 mid2 vhdr2 body2 rest2"
    and before: "length (pre1 @ ohdr1 # mid1 @ vhdr1 # body1) \<le> length (pre2 @ ohdr2 # mid2)"
    and same: "header_name (strip ohdr2) = header_name (strip ohdr1)"
    and nb1: "strip (join_nl (move_lines body1)) \<noteq> []"
    and nb2: "strip (join_nl (move_lines body2)) \<noteq> []"
  shows "\<exists>xs ys zs. map_of (parse_assets E files) (header_name (strip ohdr1))
            = Some (xs @ variation_obj E (header_name (strip ohdr1)) (header_name (strip vhdr1))
                            (move_lines body1) # ys
                    @ variation_obj E (header_name (strip ohdr1)) (header_name (strip vhdr2))
                        (move_lines body2) # zs)"
proof -
  let ?k = "header_name (strip ohdr1)"
  let ?v1 = "variation_obj E ?k (header_name (strip vhdr1)) (move_lines body1)"
  let ?v2 = "variation_obj E ?k (header_name (strip vhdr2)) (move_lines body2)"
  from t obtain fs1 fs2 where fs: "files = fs1 @ t # fs2" by (auto dest: split_list)
  then have ne: "files \<noteq> []" by simp
  let ?s1 = "parse_files E fs1 pstate0"
  let ?s0 = "?s1\<lparr>cur_opening := None, cur_variation := None, cur_moves_lines := []\<rparr>"
  have pf: "parse_files E files pstate0 = parse_files E fs2 (parse_file E t ?s1)"
    by (simp add: fs parse_files_append)
  have t1: "parse_file E t ?s1 = flush_variation E (process_lines E (splitlines t) ?s0)"
    by (simp add: parse_file_def)
  from process_lines_two_blocks [OF d1 d2 b1 b2 before same nb1 nb2, of E ?s0]
  obtain m ys zs where
    "map_of (openings (parse_file E t ?s1)) ?k
       = Some (entry (openings ?s0) ?k @ m @ ?v1 # ys @ ?v2 # zs)"
    unfolding t1 by blast
  from parse_files_extends [OF this, of E fs2] obtain vs' where
    "map_of (openings (parse_files E files pstate0)) ?k
       = Some ((entry (openings ?s0) ?k @ m @ ?v1 # ys @ ?v2 # zs) @ vs')"
    unfolding pf by blast
  then have "map_of (parse_assets E files) ?k
       = Some ((entry (openings ?s0) ?k @ m) @ ?v1 # ys @ ?v2 # (zs @ vs'))"
    using ne by (simp add: parse_assets_def)
  then show ?thesis by blast
qed

lemma parse_assets_two_files:
  assumes fs: "files = fs1 @ t1 # fs2 @ t2 # fs3"
    and d1: "splitlines t1 = pre1 @ ohdr1 # mid1 @ vhdr1 # body1 @ rest1"
    and d2: "splitlines t2 = pre2 @ ohdr2 # mid2 @ vhdr2 # body2 @ rest2"
    and b1: "block ohdr1 mid1 vhdr1 body1 rest1"
    and b2: "block ohdr2 mid2 vhdr2 body2 rest2"
    and same: "header_name (strip ohdr2) = header_name (strip ohdr1)"
    and nb1: "strip (join_nl (move_lines body1)) \<noteq> []"
    and nb2: "strip (join_nl (move_lines body2)) \<noteq> []"
  shows "\<exists>xs ys zs. map_of (parse_assets E files) (header_name (strip ohdr1))
            = Some (xs @ variation_obj E (header_name (strip ohdr1)) (header_name (strip vhdr1))
                            (move_lines body1) # ys
                    @ variation_obj E (header_name (strip ohdr1)) (header_name (strip vhdr2))
                        (move_lines body2) # zs)"
proof -
  let ?k = "header_name (strip ohdr1)"
  let ?v1 = "variation_obj E ?k (header_name (strip vhdr1)) (move_lines body1)"
  let ?v2 = "variation_obj E ?k (header_name (strip vhdr2)) (move_lines body2)"
  have ne: "files \<noteq> []" using fs by simp
  let ?sa = "parse_files E fs1 pstate0"
  let ?ra = "?sa\<lparr>cur_opening := None, cur_variation := None, cur_moves_lines := []\<rparr>"
  let ?sb = "parse_files E fs2 (parse_file E t1 ?sa)"
  let ?rb = "?sb\<lparr>cur_opening := None, cur_variation := None, cur_moves_lines := []\<rparr>"
  have pf: "parse_files E files pstate0 = parse_files E fs3 (parse_file E t2 ?sb)"
    by (simp add: fs parse_files_append)
  have t1: "parse_file E t1 ?sa
              = flush_variation E (process_lines E (pre1 @ ohdr1 # mid1 @ vhdr1 # body1 @ rest1) ?ra)"
    by (simp add: parse_file_def d1)
  have t2: "parse_file E t2 ?sb
              = flush_variation E (process_lines E (pre2 @ ohdr2 # mid2 @ vhdr2 # body2 @ rest2) ?rb)"
    by (simp add: parse_file_def d2)
  from process_lines_block(1) [OF b1 nb1, of E pre1 ?ra] obtain m1 ys1 where
    a: "map_of (openings (parse_file E t1 ?sa)) ?k
          = Some (entry (openings ?ra) ?k @ m1 @ ?v1 # ys1)"
    unfolding t1 by blast
  from parse_files_extends [OF a, of E fs2] obtain e where
    "map_of (openings ?sb) ?k = Some ((entry (openings ?ra) ?k @ m1 @ ?v1 # ys1) @ e)"
    by blast
  then have eb: "entry (openings ?sb) ?k = entry (openings ?sa) ?k @ m1 @ ?v1 # ys1 @ e"
    by (simp add: entry_def)
  from process_lines_block(1) [OF b2 nb2, of E pre2 ?rb] obtain m2 ys2 where
    "map_of (openings (parse_file E t2 ?sb)) ?k
       = Some (entry (openings ?rb) ?k @ m2 @ ?v2 # ys2)"
    unfolding t2 same by blast
  then have "map_of (openings (parse_file E t2 ?sb)) ?k
       = Some ((entry (openings ?sa) ?k @ m1 @ ?v1 # ys1 @ e) @ m2 @ ?v2 # ys2)"
    using eb by simp
  from parse_files_extends [OF this, of E fs3] obtain vs' where
    "map_of (openings (parse_files E files pstate0)) ?k
       = Some (((entry (openings ?sa) ?k @ m1 @ ?v1 # ys1 @ e) @ m2 @ ?v2 # ys2) @ vs')"
    unfolding pf by blast
  then have "map_of (parse_assets E files) ?k
       = Some ((entry (openings ?sa) ?k @ m1) @ ?v1 # (ys1 @ e @ m2) @ ?v2 # (ys2 @ vs'))"
    using ne by (simp add: parse_assets_def)
  then show ?thesis by blast
qed

subsection \<open>The content of what is stored\<close>

lemma block_truncated:
  assumes t: "t \<in> set files"
    and d: "splitlines t = pre @ ohdr # mid @ vhdr # body @ rest"
    and b: "block ohdr mid vhdr body rest"
    and nb: "strip (join_nl (move_lines body)) \<noteq> []"
    and n: "n \<le> length (tokens_of (move_lines body))"
    and res: "token_loop E (header_name (strip ohdr)) (header_name (strip vhdr))
                (take n (tokens_of (move_lines body))) (Board E, [], [fen E (Board E)], [])
              = ((bd, us, fs, ss), [])"
    and stop: "n < length (tokens_of (move_lines body)) \<longrightarrow>
                 parse_san E bd (tok_clean (tokens_of (move_lines body) ! n)) = Inl e"
  shows "\<exists>xs ys. map_of (parse_assets E files) (header_name (strip ohdr))
            = Some (xs @ \<lparr>name = header_name (strip vhdr),
                           moves_san = take n (tokens_of (move_lines body)),
                           moves_uci = us, states_fen = fs\<rparr> # ys)"
    and "n < length (tokens_of (move_lines body)) \<Longrightarrow>
         \<exists>p q. parse_assets_printed E files
            = p @ warning (tokens_of (move_lines body) ! n) (header_name (strip ohdr))
                    (header_name (strip vhdr)) e # q"
    and "length us = n" and "length fs = n + 1"
proof -
  note vo = variation_obj_prefix [OF n res stop]
  from parse_assets_block(1) [OF t d b nb, of E] vo(1)
  show "\<exists>xs ys. map_of (parse_assets E files) (header_name (strip ohdr))
            = Some (xs @ \<lparr>name = header_name (strip vhdr),
                           moves_san = take n (tokens_of (move_lines body)),
                           moves_uci = us, states_fen = fs\<rparr> # ys)"
    by simp
  from vo(3,4) show "length us = n" "length fs = n + 1" by simp_all
  assume "n < length (tokens_of (move_lines body))"
  with parse_assets_block(2) [OF t d b nb, of E] vo(2)
  show "\<exists>p q. parse_assets_printed E files
            = p @ warning (tokens_of (move_lines body) ! n) (header_name (strip ohdr))
                    (header_name (strip vhdr)) e # q"
    by simp
qed

lemma stored_from_block:
  "\<forall>kv \<in> set (entries (parse_assets E files)).
     \<exists>t pre ohdr mid vhdr body rest n bd.
       t \<in> set files \<and> splitlines t = pre @ ohdr # mid @ vhdr # body @ rest
       \<and> block ohdr mid vhdr body rest \<and> strip (join_nl (move_lines body)) \<noteq> []
       \<and> fst kv = header_name (strip ohdr) \<and> name (snd kv) = header_name (strip vhdr)
       \<and> n \<le> length (tokens_of (move_lines body))
       \<and> moves_san (snd kv) = take n (tokens_of (move_lines body))
       \<and> length (moves_uci (snd kv)) = n \<and> length (states_fen (snd kv)) = n + 1
       \<and> token_loop E (fst kv) (name (snd kv)) (take n (tokens_of (move_lines body)))
             (Board E, [], [fen E (Board E)], [])
           = ((bd, moves_uci (snd kv), states_fen (snd kv), moves_san (snd kv)), [])
       \<and> (n < length (tokens_of (move_lines body)) \<longrightarrow>
            (\<exists>e. parse_san E bd (tok_clean (tokens_of (move_lines body) ! n)) = Inl e))"
proof
  fix kv assume "kv \<in> set (entries (parse_assets E files))"
  with parse_assets_prov [of E files] obtain t pre ohdr mid vhdr body rest where
    p: "t \<in> set files" "splitlines t = pre @ ohdr # mid @ vhdr # body @ rest"
      "block ohdr mid vhdr body rest" "strip (join_nl (move_lines body)) \<noteq> []"
      "fst kv = header_name (strip ohdr)"
      "snd kv = variation_obj E (header_name (strip ohdr)) (header_name (strip vhdr))
                  (move_lines body)" by blast
  from variation_obj_shape [of "move_lines body" E "header_name (strip ohdr)"
         "header_name (strip vhdr)"]
  obtain n bd where s: "n \<le> length (tokens_of (move_lines body))"
    "name (snd kv) = header_name (strip vhdr)"
    "moves_san (snd kv) = take n (tokens_of (move_lines body))"
    "length (moves_uci (snd kv)) = n" "length (states_fen (snd kv)) = Suc n"
    "token_loop E (header_name (strip ohdr)) (header_name (strip vhdr))
        (take n (tokens_of (move_lines body))) (Board E, [], [fen E (Board E)], [])
       = ((bd, moves_uci (snd kv), states_fen (snd kv), moves_san (snd kv)), [])"
    "n < length (tokens_of (move_lines body)) \<longrightarrow>
       (\<exists>e. parse_san E bd (tok_clean (tokens_of (move_lines body) ! n)) = Inl e)"
    unfolding p(6) [symmetric] by (auto split: if_splits)
  have "t \<in> set files \<and> splitlines t = pre @ ohdr # mid @ vhdr # body @ rest
       \<and> block ohdr mid vhdr body rest \<and> strip (join_nl (move_lines body)) \<noteq> []
       \<and> fst kv = header_name (strip ohdr) \<and> name (snd kv) = header_name (strip vhdr)
       \<and> n \<le> length (tokens_of (move_lines body))
       \<and> moves_san (snd kv) = take n (tokens_of (move_lines body))
       \<and> length (moves_uci (snd kv)) = n \<and> length (states_fen (snd kv)) = n + 1
       \<and> token_loop E (fst kv) (name (snd kv)) (take n (tokens_of (move_lines body)))
             (Board E, [], [fen E (Board E)], [])
           = ((bd, moves_uci (snd kv), states_fen (snd kv), moves_san (snd kv)), [])
       \<and> (n < length (tokens_of (move_lines body)) \<longrightarrow>
            (\<exists>e. parse_san E bd (tok_clean (tokens_of (move_lines body) ! n)) = Inl e))"
    using p(1-5) s by simp
  then show "\<exists>t pre ohdr mid vhdr body rest n bd.
       t \<in> set files \<and> splitlines t = pre @ ohdr # mid @ vhdr # body @ rest
       \<and> block ohdr mid vhdr body rest \<and> strip (join_nl (move_lines body)) \<noteq> []
       \<and> fst kv = header_name (strip ohdr) \<and> name (snd kv) = header_name (strip vhdr)
       \<and> n \<le> length (tokens_of (move_lines body))
       \<and> moves_san (snd kv) = take n (tokens_of (move_lines body))
       \<and> length (moves_uci (snd kv)) = n \<and> length (states_fen (snd kv)) = n + 1
       \<and> token_loop E (fst kv) (name (snd kv)) (take n (tokens_of (move_lines body)))
             (Board E, [], [fen E (Board E)], [])
           = ((bd, moves_uci (snd kv), states_fen (snd kv), moves_san (snd kv)), [])
       \<and> (n < length (tokens_of (move_lines body)) \<longrightarrow>
            (\<exists>e. parse_san E bd (tok_clean (tokens_of (move_lines body) ! n)) = Inl e))"
    by blast
qed




lemma parse_assets_lengths:
  "\<forall>v \<in> set (variations_of (parse_assets E files)).
     length (states_fen v) = length (moves_uci v) + 1
     \<and> length (moves_uci v) + 1 = length (moves_san v) + 1"
proof (rule parse_assets_inv)
  fix opn var lns b us fs ss out
  assume "token_loop E opn var (tokens_of lns) (Board E, [], [fen E (Board E)], [])
            = ((b, us, fs, ss), out)"
  from token_loop_shape [OF this] obtain n where "n \<le> length (tokens_of lns)"
    "ss = [] @ take n (tokens_of lns)" "length us = length ([] :: string list) + n"
    "length fs = length [fen E (Board E)] + n" by blast
  then show "length (states_fen \<lparr>name = var, moves_san = ss, moves_uci = us, states_fen = fs\<rparr>)
       = length (moves_uci \<lparr>name = var, moves_san = ss, moves_uci = us, states_fen = fs\<rparr>) + 1
     \<and> length (moves_uci \<lparr>name = var, moves_san = ss, moves_uci = us, states_fen = fs\<rparr>) + 1
       = length (moves_san \<lparr>name = var, moves_san = ss, moves_uci = us, states_fen = fs\<rparr>) + 1"
    by simp
qed

lemma flush_variation_appends:
  assumes "cur_opening st = Some opening" "cur_variation st = Some var"
    "strip (join_nl (cur_moves_lines st)) \<noteq> []"
  shows "\<exists>v. name v = var
          \<and> map_of (openings (flush_variation E st)) opening
              = Some ((case map_of (openings st) opening of None \<Rightarrow> [] | Some vs \<Rightarrow> vs) @ [v])
          \<and> (\<forall>k. k \<noteq> opening \<longrightarrow>
                map_of (openings (flush_variation E st)) k = map_of (openings st) k)
          \<and> map fst (openings (flush_variation E st))
              = (if opening \<in> set (map fst (openings st)) then map fst (openings st)
                 else map fst (openings st) @ [opening])"
proof -
  let ?v = "variation_obj E opening var (cur_moves_lines st)"
  have "name ?v = var"
    by (simp add: variation_obj_def split: prod.splits)
  moreover have "openings (flush_variation E st) = setdefault_append (openings st) opening ?v"
    by (simp add: flush_pending [OF assms])
  ultimately have "name ?v = var
          \<and> map_of (openings (flush_variation E st)) opening
              = Some ((case map_of (openings st) opening of None \<Rightarrow> [] | Some vs \<Rightarrow> vs) @ [?v])
          \<and> (\<forall>k. k \<noteq> opening \<longrightarrow>
                map_of (openings (flush_variation E st)) k = map_of (openings st) k)
          \<and> map fst (openings (flush_variation E st))
              = (if opening \<in> set (map fst (openings st)) then map fst (openings st)
                 else map fst (openings st) @ [opening])"
    by (simp add: map_of_setdefault_append keys_setdefault_append)
  then show ?thesis by blast
qed

lemma parse_assets_distinct: "distinct (map fst (parse_assets E files))"
  using parse_files_distinct [of pstate0 E files]
  by (simp add: parse_assets_def pstate0_def)



subsection \<open>The claims about parsing\<close>




text \<open>
  Claim C2. For every variation that \<open>parse_assets\<close> returns, \<open>states_fen\<close> has one entry
  more than \<open>moves_uci\<close>, and \<open>moves_uci\<close> as many as \<open>moves_san\<close>. Every variation
  that is stored comes from a variation block of one of the files, and with the tokens of
  the lines of that block: \<open>moves_san\<close> are the first \<open>n\<close> tokens, the two other
  sequences have \<open>n\<close> and \<open>n + 1\<close> entries and are what the loop produces on these \<open>n\<close>
  tokens alone, and when there are more than \<open>n\<close> tokens, token \<open>n\<close> is one that the
  engine refuses at the position reached. Conversely, when the first \<open>n\<close> tokens of a
  block resolve and token \<open>n\<close> is refused, the block is stored with exactly these \<open>n\<close>
  moves: nothing from token \<open>n\<close> on is in any of the three sequences.
\<close>

theorem parsed_sequences_consistent:
  "(\<forall>v \<in> set (variations_of (parse_assets E files)).
      length (states_fen v) = length (moves_uci v) + 1
      \<and> length (moves_uci v) + 1 = length (moves_san v) + 1)
   \<and> (\<forall>kv \<in> set (entries (parse_assets E files)).
        \<exists>t pre ohdr mid vhdr body rest n bd.
          t \<in> set files \<and> splitlines t = pre @ ohdr # mid @ vhdr # body @ rest
          \<and> block ohdr mid vhdr body rest \<and> strip (join_nl (move_lines body)) \<noteq> []
          \<and> fst kv = header_name (strip ohdr) \<and> name (snd kv) = header_name (strip vhdr)
          \<and> n \<le> length (tokens_of (move_lines body))
          \<and> moves_san (snd kv) = take n (tokens_of (move_lines body))
          \<and> length (moves_uci (snd kv)) = n \<and> length (states_fen (snd kv)) = n + 1
          \<and> token_loop E (fst kv) (name (snd kv)) (take n (tokens_of (move_lines body)))
                (Board E, [], [fen E (Board E)], [])
              = ((bd, moves_uci (snd kv), states_fen (snd kv), moves_san (snd kv)), [])
          \<and> (n < length (tokens_of (move_lines body)) \<longrightarrow>
               (\<exists>e. parse_san E bd (tok_clean (tokens_of (move_lines body) ! n)) = Inl e)))
   \<and> (t \<in> set files \<and> splitlines t = pre @ ohdr # mid @ vhdr # body @ rest
        \<and> block ohdr mid vhdr body rest \<and> strip (join_nl (move_lines body)) \<noteq> []
        \<and> n < length (tokens_of (move_lines body))
        \<and> token_loop E (header_name (strip ohdr)) (header_name (strip vhdr))
              (take n (tokens_of (move_lines body))) (Board E, [], [fen E (Board E)], [])
            = ((bd, us, fs, ss), [])
        \<and> parse_san E bd (tok_clean (tokens_of (move_lines body) ! n)) = Inl e \<longrightarrow>
       length us = n \<and> length fs = n + 1
       \<and> (\<exists>xs ys. map_of (parse_assets E files) (header_name (strip ohdr))
              = Some (xs @ \<lparr>name = header_name (strip vhdr),
                             moves_san = take n (tokens_of (move_lines body)),
                             moves_uci = us, states_fen = fs\<rparr> # ys)))"
  apply (intro conjI impI)
  subgoal by (rule parse_assets_lengths)
  subgoal by (rule stored_from_block)
  subgoal by (elim conjE) (rule block_truncated(3) [where e = e and t = t and files = files and pre = pre and ohdr = ohdr and mid = mid
      and vhdr = vhdr and body = body and rest = rest], simp_all)
  subgoal by (elim conjE) (rule block_truncated(4) [where e = e and t = t and files = files and pre = pre and ohdr = ohdr and mid = mid
      and vhdr = vhdr and body = body and rest = rest], simp_all)
  subgoal by (elim conjE) (rule block_truncated(1) [where e = e and t = t and files = files and pre = pre and ohdr = ohdr and mid = mid
      and vhdr = vhdr and body = body and rest = rest], simp_all)
  done

text \<open>
  The statement above on the file \<open>file_third_token_refused\<close>, whose variation has the
  tokens \<open>e4\<close>, \<open>e5\<close>, \<open>Qh9\<close>, \<open>d4\<close>: it is stored with two moves.
\<close>

theorem parsed_sequences_consistent_witness:
  "variations_of (parse_assets toy [file_third_token_refused]) \<noteq> []
   \<and> entries (parse_assets toy [file_third_token_refused]) \<noteq> []
   \<and> splitlines (file_third_token_refused)
       = [] @ ''** A:'' # [] @ ''* V:'' # [''1. e4 e5 2. Qh9 d4''] @ []
   \<and> block ''** A:'' [] ''* V:'' [''1. e4 e5 2. Qh9 d4''] []
   \<and> strip (join_nl (move_lines [''1. e4 e5 2. Qh9 d4''])) \<noteq> []
   \<and> tokens_of (move_lines [''1. e4 e5 2. Qh9 d4'']) = [''e4'', ''e5'', ''Qh9'', ''d4'']
   \<and> 2 < length (tokens_of (move_lines [''1. e4 e5 2. Qh9 d4'']))
   \<and> token_loop toy (header_name (strip ''** A:'')) (header_name (strip ''* V:'')) (take 2 (tokens_of (move_lines [''1. e4 e5 2. Qh9 d4'']))) (Board toy, [], [fen toy (Board toy)], [])
       = ((toy_push (toy_push toy_start (12, 28)) (52, 36), [''e2e4'', ''e7e5''], [toy_fen toy_start, toy_fen (toy_push toy_start (12, 28)), toy_fen (toy_push (toy_push toy_start (12, 28)) (52, 36))], [''e4'', ''e5'']), [])
   \<and> parse_san toy (toy_push (toy_push toy_start (12, 28)) (52, 36)) (tok_clean (tokens_of (move_lines [''1. e4 e5 2. Qh9 d4'']) ! 2))
       = Inl ''invalid san: Qh9''
   \<and> list_all
       (\<lambda>v. length (states_fen v) = length (moves_uci v) + 1
            \<and> length (moves_uci v) + 1 = length (moves_san v) + 1)
       (variations_of (parse_assets toy [file_third_token_refused]))
   \<and> list_all
       (\<lambda>kv. \<exists>t pre ohdr mid vhdr body rest n bd.
          t \<in> set [file_third_token_refused] \<and> splitlines t = pre @ ohdr # mid @ vhdr # body @ rest
          \<and> block ohdr mid vhdr body rest \<and> strip (join_nl (move_lines body)) \<noteq> []
          \<and> fst kv = header_name (strip ohdr) \<and> name (snd kv) = header_name (strip vhdr)
          \<and> n \<le> length (tokens_of (move_lines body))
          \<and> moves_san (snd kv) = take n (tokens_of (move_lines body))
          \<and> length (moves_uci (snd kv)) = n \<and> length (states_fen (snd kv)) = n + 1
          \<and> token_loop toy (fst kv) (name (snd kv)) (take n (tokens_of (move_lines body)))
                (Board toy, [], [fen toy (Board toy)], [])
              = ((bd, moves_uci (snd kv), states_fen (snd kv), moves_san (snd kv)), [])
          \<and> (n < length (tokens_of (move_lines body)) \<longrightarrow>
               (\<exists>e. parse_san toy bd (tok_clean (tokens_of (move_lines body) ! n)) = Inl e)))
       (entries (parse_assets toy [file_third_token_refused]))
   \<and> length [''e2e4'', ''e7e5''] = (2 :: nat) \<and> length ([toy_fen toy_start, toy_fen (toy_push toy_start (12, 28)), toy_fen (toy_push (toy_push toy_start (12, 28)) (52, 36))]) = (2 :: nat) + 1
   \<and> (\<exists>xs ys. map_of (parse_assets toy [file_third_token_refused]) (header_name (strip ''** A:''))
          = Some (xs @ \<lparr>name = header_name (strip ''* V:''), moves_san = take 2 (tokens_of (move_lines [''1. e4 e5 2. Qh9 d4''])),
                moves_uci = [''e2e4'', ''e7e5''], states_fen = [toy_fen toy_start, toy_fen (toy_push toy_start (12, 28)), toy_fen (toy_push (toy_push toy_start (12, 28)) (52, 36))]\<rparr> # ys))"
proof -
  have h1: "variations_of (parse_assets toy [file_third_token_refused]) \<noteq> []"
    by code_simp
  have h2: "entries (parse_assets toy [file_third_token_refused]) \<noteq> []"
    by code_simp
  have h3: "splitlines (file_third_token_refused)
       = [] @ ''** A:'' # [] @ ''* V:'' # [''1. e4 e5 2. Qh9 d4''] @ []"
    by code_simp
  have h4: "block ''** A:'' [] ''* V:'' [''1. e4 e5 2. Qh9 d4''] []"
    by code_simp
  have h5: "strip (join_nl (move_lines [''1. e4 e5 2. Qh9 d4''])) \<noteq> []"
    by code_simp
  have h6: "tokens_of (move_lines [''1. e4 e5 2. Qh9 d4'']) = [''e4'', ''e5'', ''Qh9'', ''d4'']"
    by code_simp
  have h7: "2 < length (tokens_of (move_lines [''1. e4 e5 2. Qh9 d4'']))"
    by code_simp
  have h8: "token_loop toy (header_name (strip ''** A:'')) (header_name (strip ''* V:'')) (take 2 (tokens_of (move_lines [''1. e4 e5 2. Qh9 d4'']))) (Board toy, [], [fen toy (Board toy)], [])
       = ((toy_push (toy_push toy_start (12, 28)) (52, 36), [''e2e4'', ''e7e5''], [toy_fen toy_start, toy_fen (toy_push toy_start (12, 28)), toy_fen (toy_push (toy_push toy_start (12, 28)) (52, 36))], [''e4'', ''e5'']), [])"
    by code_simp
  have h9: "parse_san toy (toy_push (toy_push toy_start (12, 28)) (52, 36)) (tok_clean (tokens_of (move_lines [''1. e4 e5 2. Qh9 d4'']) ! 2))
       = Inl ''invalid san: Qh9''"
    by code_simp
  note hs = h1 h2 h3 h4 h5 h6 h7 h8 h9
  note u1 = parsed_sequences_consistent
    [where E = toy and files = "[file_third_token_refused]"
       and t = "file_third_token_refused"
       and pre = "[]" and ohdr = "''** A:''" and mid = "[]" and vhdr = "''* V:''"
       and body = "[''1. e4 e5 2. Qh9 d4'']" and rest = "[]" and n = 2
       and bd = "toy_push (toy_push toy_start (12, 28)) (52, 36)"
       and us = "[''e2e4'', ''e7e5'']" and fs = "[toy_fen toy_start, toy_fen (toy_push toy_start (12, 28)), toy_fen (toy_push (toy_push toy_start (12, 28)) (52, 36))]"
       and ss = "[''e4'', ''e5'']" and e = "''invalid san: Qh9''"]
  have c1: "list_all
       (\<lambda>v. length (states_fen v) = length (moves_uci v) + 1
            \<and> length (moves_uci v) + 1 = length (moves_san v) + 1)
       (variations_of (parse_assets toy [file_third_token_refused]))"
    using u1 [THEN conjunct1] unfolding list_all_iff .
  have c2: "list_all
       (\<lambda>kv. \<exists>t pre ohdr mid vhdr body rest n bd.
          t \<in> set [file_third_token_refused] \<and> splitlines t = pre @ ohdr # mid @ vhdr # body @ rest
          \<and> block ohdr mid vhdr body rest \<and> strip (join_nl (move_lines body)) \<noteq> []
          \<and> fst kv = header_name (strip ohdr) \<and> name (snd kv) = header_name (strip vhdr)
          \<and> n \<le> length (tokens_of (move_lines body))
          \<and> moves_san (snd kv) = take n (tokens_of (move_lines body))
          \<and> length (moves_uci (snd kv)) = n \<and> length (states_fen (snd kv)) = n + 1
          \<and> token_loop toy (fst kv) (name (snd kv)) (take n (tokens_of (move_lines body)))
                (Board toy, [], [fen toy (Board toy)], [])
              = ((bd, moves_uci (snd kv), states_fen (snd kv), moves_san (snd kv)), [])
          \<and> (n < length (tokens_of (move_lines body)) \<longrightarrow>
               (\<exists>e. parse_san toy bd (tok_clean (tokens_of (move_lines body) ! n)) = Inl e)))
       (entries (parse_assets toy [file_third_token_refused]))"
    using u1 [THEN conjunct2, THEN conjunct1] unfolding list_all_iff .
  have c3: "length [''e2e4'', ''e7e5''] = (2 :: nat) \<and> length ([toy_fen toy_start, toy_fen (toy_push toy_start (12, 28)), toy_fen (toy_push (toy_push toy_start (12, 28)) (52, 36))]) = (2 :: nat) + 1"
    using u1 [THEN conjunct2, THEN conjunct2] h3 h4 h5 h7 h8 h9 by simp
  have c4: "(\<exists>xs ys. map_of (parse_assets toy [file_third_token_refused]) (header_name (strip ''** A:''))
          = Some (xs @ \<lparr>name = header_name (strip ''* V:''), moves_san = take 2 (tokens_of (move_lines [''1. e4 e5 2. Qh9 d4''])),
                moves_uci = [''e2e4'', ''e7e5''], states_fen = [toy_fen toy_start, toy_fen (toy_push toy_start (12, 28)), toy_fen (toy_push (toy_push toy_start (12, 28)) (52, 36))]\<rparr> # ys))"
    using u1 [THEN conjunct2, THEN conjunct2] h3 h4 h5 h7 h8 h9 by simp
  show ?thesis
    using hs c1 c2 c3 c4 by blast
qed



text \<open>
  Claim C9. The dictionary that \<open>parse_assets\<close> returns has one entry a name. A flush
  appends its variation to the end of the list stored under the name of the current
  opening (creating the entry, at the end of the dictionary, only when the name is new)
  and changes no other entry. What is stored under a name comes from the blocks under
  the opening headers of that name, and every block with non-blank move text is stored
  under the name of its opening header. When two blocks have opening headers of the same
  name, the variations of both are in the one entry of that name, in the order in which
  they are met: for two blocks of one file, the first of which ends before the opening
  header of the second (which may be the same header or a later header of that name),
  and for blocks of two files of the load.
\<close>

theorem same_opening_name_single_entry:
  "distinct (map fst (parse_assets E files))
   \<and> (cur_opening st = Some opn \<and> cur_variation st = Some var
        \<and> strip (join_nl (cur_moves_lines st)) \<noteq> [] \<longrightarrow>
       (\<exists>v. name v = var
          \<and> map_of (openings (flush_variation E st)) opn
              = Some ((case map_of (openings st) opn of None \<Rightarrow> [] | Some vs \<Rightarrow> vs) @ [v])
          \<and> (\<forall>k. k \<noteq> opn \<longrightarrow>
                map_of (openings (flush_variation E st)) k = map_of (openings st) k)
          \<and> map fst (openings (flush_variation E st))
              = (if opn \<in> set (map fst (openings st)) then map fst (openings st)
                 else map fst (openings st) @ [opn])))
   \<and> (\<forall>kv \<in> set (entries (parse_assets E files)).
        \<exists>t pre ohdr mid vhdr body rest.
          t \<in> set files \<and> splitlines t = pre @ ohdr # mid @ vhdr # body @ rest
          \<and> block ohdr mid vhdr body rest \<and> strip (join_nl (move_lines body)) \<noteq> []
          \<and> fst kv = header_name (strip ohdr)
          \<and> snd kv = variation_obj E (header_name (strip ohdr)) (header_name (strip vhdr))
                        (move_lines body))
   \<and> (t \<in> set files \<and> splitlines t = preA @ ohdrA # midA @ vhdrA # bodyA @ restA
        \<and> block ohdrA midA vhdrA bodyA restA \<and> strip (join_nl (move_lines bodyA)) \<noteq> [] \<longrightarrow>
       (\<exists>xs ys. map_of (parse_assets E files) (header_name (strip ohdrA))
            = Some (xs @ variation_obj E (header_name (strip ohdrA)) (header_name (strip vhdrA))
                           (move_lines bodyA) # ys)))
   \<and> (t \<in> set files \<and> splitlines t = preA @ ohdrA # midA @ vhdrA # bodyA @ restA
        \<and> splitlines t = preB @ ohdrB # midB @ vhdrB # bodyB @ restB
        \<and> block ohdrA midA vhdrA bodyA restA \<and> block ohdrB midB vhdrB bodyB restB
        \<and> length (preA @ ohdrA # midA @ vhdrA # bodyA) \<le> length (preB @ ohdrB # midB)
        \<and> header_name (strip ohdrB) = header_name (strip ohdrA)
        \<and> strip (join_nl (move_lines bodyA)) \<noteq> []
        \<and> strip (join_nl (move_lines bodyB)) \<noteq> [] \<longrightarrow>
       (\<exists>xs ys zs. map_of (parse_assets E files) (header_name (strip ohdrA))
            = Some (xs @ variation_obj E (header_name (strip ohdrA)) (header_name (strip vhdrA))
                           (move_lines bodyA) # ys
                    @ variation_obj E (header_name (strip ohdrA)) (header_name (strip vhdrB))
                        (move_lines bodyB) # zs)))
   \<and> (files = fsa @ t # fsb @ t' # fsc
        \<and> splitlines t = preA @ ohdrA # midA @ vhdrA # bodyA @ restA
        \<and> splitlines t' = preC @ ohdrC # midC @ vhdrC # bodyC @ restC
        \<and> block ohdrA midA vhdrA bodyA restA \<and> block ohdrC midC vhdrC bodyC restC
        \<and> header_name (strip ohdrC) = header_name (strip ohdrA)
        \<and> strip (join_nl (move_lines bodyA)) \<noteq> []
        \<and> strip (join_nl (move_lines bodyC)) \<noteq> [] \<longrightarrow>
       (\<exists>xs ys zs. map_of (parse_assets E files) (header_name (strip ohdrA))
            = Some (xs @ variation_obj E (header_name (strip ohdrA)) (header_name (strip vhdrA))
                           (move_lines bodyA) # ys
                    @ variation_obj E (header_name (strip ohdrA)) (header_name (strip vhdrC))
                        (move_lines bodyC) # zs)))"
  apply (intro conjI impI)
  subgoal by (rule parse_assets_distinct)
  subgoal by (elim conjE) (rule flush_variation_appends)
  subgoal by (rule parse_assets_prov)
  subgoal by (elim conjE) (rule parse_assets_block(1))
  subgoal by (elim conjE) (rule parse_assets_two_blocks)
  subgoal by (elim conjE) (rule parse_assets_two_files)
  done

text \<open>
  The statement above on the files \<open>file_repeated_header\<close> and \<open>file_header_again\<close>:
  the opening \<open>A\<close> has three headers, two in the first file with the opening \<open>B\<close> in
  between and one in the second file, and the result has the two entries \<open>A\<close>, with the
  variations \<open>V\<close>, \<open>W\<close>, \<open>Z\<close> in this order, and \<open>B\<close>.
\<close>

theorem same_opening_name_single_entry_witness:
  "cur_opening (pstate0\<lparr>openings := [(''A'', [])], cur_opening := Some ''A'',
                cur_variation := Some ''V'', cur_moves_lines := [''e4'']\<rparr>) = Some ''A''
   \<and> cur_variation (pstate0\<lparr>openings := [(''A'', [])], cur_opening := Some ''A'',
                cur_variation := Some ''V'', cur_moves_lines := [''e4'']\<rparr>) = Some ''V''
   \<and> strip (join_nl (cur_moves_lines (pstate0\<lparr>openings := [(''A'', [])], cur_opening := Some ''A'',
                cur_variation := Some ''V'', cur_moves_lines := [''e4'']\<rparr>))) \<noteq> []
   \<and> entries (parse_assets toy [file_repeated_header, file_header_again]) \<noteq> []
   \<and> splitlines (file_repeated_header)
       = [] @ ''** A:'' # [] @ ''* V:'' # [''e4''] @ [''** B:'', ''* X:'', ''d4'', ''** A:'', ''* W:'', ''d4'']
   \<and> splitlines (file_repeated_header)
       = [''** A:'', ''* V:'', ''e4'', ''** B:'', ''* X:'', ''d4''] @ ''** A:'' # [] @ ''* W:'' # [''d4''] @ []
   \<and> splitlines (file_header_again)
       = [] @ ''** A:'' # [] @ ''* Z:'' # [''Nf3''] @ []
   \<and> block ''** A:'' [] ''* V:'' [''e4''] [''** B:'', ''* X:'', ''d4'', ''** A:'', ''* W:'', ''d4'']
   \<and> block ''** A:'' [] ''* W:'' [''d4''] []
   \<and> block ''** A:'' [] ''* Z:'' [''Nf3''] []
   \<and> length ([] @ ''** A:'' # [] @ ''* V:'' # [''e4''])
       \<le> length ([''** A:'', ''* V:'', ''e4'', ''** B:'', ''* X:'', ''d4''] @ ''** A:'' # [])
   \<and> header_name (strip ''** A:'') = header_name (strip ''** A:'')
   \<and> strip (join_nl (move_lines [''e4''])) \<noteq> []
   \<and> strip (join_nl (move_lines [''d4''])) \<noteq> []
   \<and> strip (join_nl (move_lines [''Nf3''])) \<noteq> []
   \<and> header_name (strip ''** A:'') = ''A''
   \<and> map (\<lambda>kv. (fst kv, map name (snd kv))) (parse_assets toy [file_repeated_header, file_header_again])
       = [(''A'', [''V'', ''W'', ''Z'']), (''B'', [''X''])]
   \<and> distinct (map fst (parse_assets toy [file_repeated_header, file_header_again]))
   \<and> (\<exists>v. name v = ''V''
          \<and> map_of (openings (flush_variation toy (pstate0\<lparr>openings := [(''A'', [])], cur_opening := Some ''A'',
                cur_variation := Some ''V'', cur_moves_lines := [''e4'']\<rparr>))) ''A''
              = Some ((case map_of (openings (pstate0\<lparr>openings := [(''A'', [])], cur_opening := Some ''A'',
                cur_variation := Some ''V'', cur_moves_lines := [''e4'']\<rparr>)) ''A'' of
                         None \<Rightarrow> [] | Some vs \<Rightarrow> vs) @ [v]))
   \<and> list_all
       (\<lambda>kv. \<exists>t pre ohdr mid vhdr body rest.
          t \<in> set [file_repeated_header, file_header_again]
          \<and> splitlines t = pre @ ohdr # mid @ vhdr # body @ rest
          \<and> block ohdr mid vhdr body rest \<and> strip (join_nl (move_lines body)) \<noteq> []
          \<and> fst kv = header_name (strip ohdr)
          \<and> snd kv = variation_obj toy (header_name (strip ohdr)) (header_name (strip vhdr))
                        (move_lines body))
       (entries (parse_assets toy [file_repeated_header, file_header_again]))
   \<and> (\<exists>xs ys. map_of (parse_assets toy [file_repeated_header, file_header_again]) (header_name (strip ''** A:''))
          = Some (xs @ variation_obj toy (header_name (strip ''** A:'')) (header_name (strip ''* V:'')) (move_lines [''e4'']) # ys))
   \<and> (\<exists>xs ys zs. map_of (parse_assets toy [file_repeated_header, file_header_again]) (header_name (strip ''** A:''))
          = Some (xs @ variation_obj toy (header_name (strip ''** A:'')) (header_name (strip ''* V:'')) (move_lines [''e4'']) # ys
                  @ variation_obj toy (header_name (strip ''** A:'')) (header_name (strip ''* W:'')) (move_lines [''d4'']) # zs))
   \<and> (\<exists>xs ys zs. map_of (parse_assets toy [file_repeated_header, file_header_again]) (header_name (strip ''** A:''))
          = Some (xs @ variation_obj toy (header_name (strip ''** A:'')) (header_name (strip ''* V:'')) (move_lines [''e4'']) # ys
                  @ variation_obj toy (header_name (strip ''** A:'')) (header_name (strip ''* Z:'')) (move_lines [''Nf3'']) # zs))"
proof -
  have h1: "cur_opening (pstate0\<lparr>openings := [(''A'', [])], cur_opening := Some ''A'',
                cur_variation := Some ''V'', cur_moves_lines := [''e4'']\<rparr>) = Some ''A''"
    by (simp add: pstate0_def)
  have h2: "cur_variation (pstate0\<lparr>openings := [(''A'', [])], cur_opening := Some ''A'',
                cur_variation := Some ''V'', cur_moves_lines := [''e4'']\<rparr>) = Some ''V''"
    by (simp add: pstate0_def)
  have h3: "strip (join_nl (cur_moves_lines (pstate0\<lparr>openings := [(''A'', [])], cur_opening := Some ''A'',
                cur_variation := Some ''V'', cur_moves_lines := [''e4'']\<rparr>))) \<noteq> []"
    by code_simp
  have h4: "entries (parse_assets toy [file_repeated_header, file_header_again]) \<noteq> []"
    by code_simp
  have h5: "splitlines (file_repeated_header)
       = [] @ ''** A:'' # [] @ ''* V:'' # [''e4''] @ [''** B:'', ''* X:'', ''d4'', ''** A:'', ''* W:'', ''d4'']"
    by code_simp
  have h6: "splitlines (file_repeated_header)
       = [''** A:'', ''* V:'', ''e4'', ''** B:'', ''* X:'', ''d4''] @ ''** A:'' # [] @ ''* W:'' # [''d4''] @ []"
    by code_simp
  have h7: "splitlines (file_header_again)
       = [] @ ''** A:'' # [] @ ''* Z:'' # [''Nf3''] @ []"
    by code_simp
  have h8: "block ''** A:'' [] ''* V:'' [''e4''] [''** B:'', ''* X:'', ''d4'', ''** A:'', ''* W:'', ''d4'']"
    by code_simp
  have h9: "block ''** A:'' [] ''* W:'' [''d4''] []"
    by code_simp
  have h10: "block ''** A:'' [] ''* Z:'' [''Nf3''] []"
    by code_simp
  have h11: "length ([] @ ''** A:'' # [] @ ''* V:'' # [''e4''])
       \<le> length ([''** A:'', ''* V:'', ''e4'', ''** B:'', ''* X:'', ''d4''] @ ''** A:'' # [])"
    by simp
  have h12: "header_name (strip ''** A:'') = header_name (strip ''** A:'')"
    by simp
  have h13: "strip (join_nl (move_lines [''e4''])) \<noteq> []"
    by code_simp
  have h14: "strip (join_nl (move_lines [''d4''])) \<noteq> []"
    by code_simp
  have h15: "strip (join_nl (move_lines [''Nf3''])) \<noteq> []"
    by code_simp
  have h16: "header_name (strip ''** A:'') = ''A''"
    by code_simp
  have h17: "map (\<lambda>kv. (fst kv, map name (snd kv))) (parse_assets toy [file_repeated_header, file_header_again])
       = [(''A'', [''V'', ''W'', ''Z'']), (''B'', [''X''])]"
    by code_simp
  note hs = h1 h2 h3 h4 h5 h6 h7 h8 h9 h10 h11 h12 h13 h14 h15 h16 h17
  note u1 = same_opening_name_single_entry
    [where E = toy and files = "[file_repeated_header, file_header_again]"
       and st = "pstate0\<lparr>openings := [(''A'', [])], cur_opening := Some ''A'',
                cur_variation := Some ''V'', cur_moves_lines := [''e4'']\<rparr>"
       and opn = "''A''" and var = "''V''"
       and t = "file_repeated_header"
       and preA = "[]" and ohdrA = "''** A:''" and midA = "[]" and vhdrA = "''* V:''"
       and bodyA = "[''e4'']" and restA = "[''** B:'', ''* X:'', ''d4'', ''** A:'', ''* W:'', ''d4'']"
       and preB = "[''** A:'', ''* V:'', ''e4'', ''** B:'', ''* X:'', ''d4'']"
       and ohdrB = "''** A:''" and midB = "[]" and vhdrB = "''* W:''"
       and bodyB = "[''d4'']" and restB = "[]"
       and fsa = "[]" and fsb = "[]" and fsc = "[]"
       and t' = "file_header_again"
       and preC = "[]" and ohdrC = "''** A:''" and midC = "[]" and vhdrC = "''* Z:''"
       and bodyC = "[''Nf3'']" and restC = "[]"]
  have c1: "distinct (map fst (parse_assets toy [file_repeated_header, file_header_again]))"
    using u1 [THEN conjunct1] .
  have c2: "(\<exists>v. name v = ''V''
          \<and> map_of (openings (flush_variation toy (pstate0\<lparr>openings := [(''A'', [])], cur_opening := Some ''A'',
                cur_variation := Some ''V'', cur_moves_lines := [''e4'']\<rparr>))) ''A''
              = Some ((case map_of (openings (pstate0\<lparr>openings := [(''A'', [])], cur_opening := Some ''A'',
                cur_variation := Some ''V'', cur_moves_lines := [''e4'']\<rparr>)) ''A'' of
                         None \<Rightarrow> [] | Some vs \<Rightarrow> vs) @ [v]))"
    using u1 [THEN conjunct2, THEN conjunct1] h1 h2 h3 by blast
  have c3: "list_all
       (\<lambda>kv. \<exists>t pre ohdr mid vhdr body rest.
          t \<in> set [file_repeated_header, file_header_again]
          \<and> splitlines t = pre @ ohdr # mid @ vhdr # body @ rest
          \<and> block ohdr mid vhdr body rest \<and> strip (join_nl (move_lines body)) \<noteq> []
          \<and> fst kv = header_name (strip ohdr)
          \<and> snd kv = variation_obj toy (header_name (strip ohdr)) (header_name (strip vhdr))
                        (move_lines body))
       (entries (parse_assets toy [file_repeated_header, file_header_again]))"
    using u1 [THEN conjunct2, THEN conjunct2, THEN conjunct1] unfolding list_all_iff .
  have c4: "(\<exists>xs ys. map_of (parse_assets toy [file_repeated_header, file_header_again]) (header_name (strip ''** A:''))
          = Some (xs @ variation_obj toy (header_name (strip ''** A:'')) (header_name (strip ''* V:'')) (move_lines [''e4'']) # ys))"
    using u1 [THEN conjunct2, THEN conjunct2, THEN conjunct2, THEN conjunct1] h5 h8 h13 by simp
  have c5: "(\<exists>xs ys zs. map_of (parse_assets toy [file_repeated_header, file_header_again]) (header_name (strip ''** A:''))
          = Some (xs @ variation_obj toy (header_name (strip ''** A:'')) (header_name (strip ''* V:'')) (move_lines [''e4'']) # ys
                  @ variation_obj toy (header_name (strip ''** A:'')) (header_name (strip ''* W:'')) (move_lines [''d4'']) # zs))"
    using u1 [THEN conjunct2, THEN conjunct2, THEN conjunct2, THEN conjunct2, THEN conjunct1] h5 h6 h8 h9 h11 h13 h14 by simp
  have c6: "(\<exists>xs ys zs. map_of (parse_assets toy [file_repeated_header, file_header_again]) (header_name (strip ''** A:''))
          = Some (xs @ variation_obj toy (header_name (strip ''** A:'')) (header_name (strip ''* V:'')) (move_lines [''e4'']) # ys
                  @ variation_obj toy (header_name (strip ''** A:'')) (header_name (strip ''* Z:'')) (move_lines [''Nf3'']) # zs))"
    using u1 [THEN conjunct2, THEN conjunct2, THEN conjunct2, THEN conjunct2, THEN conjunct2] h5 h7 h8 h10 h13 h15 by simp
  show ?thesis
    using hs c1 c2 c3 c4 c5 c6 by blast
qed



end
